theory Spec2Isabelle
  imports Complex_Main "HOL-Library.Word"
begin

section \<open>Bytes, buffers and JavaScript strings\<close>

text \<open>
  A Node.js \<open>Buffer\<close> is a list of bytes.  A JavaScript string is a sequence of UTF-16
  code units; a code unit is a natural number below \<open>2 ^ 16\<close>.  JavaScript numbers
  that hold byte counts and offsets are natural numbers: the code adds them as doubles,
  which is exact as long as every sum stays below \<open>2 ^ 53\<close>.  The modification time
  is a real.  The start offset and the chunk sizes, which the code passes through
  \<open>Math.floor\<close> and \<open>Math.max\<close>, are JavaScript numbers with \<open>NaN\<close> and the two
  infinities.
\<close>

type_synonym byte = "8 word"
type_synonym buffer = "byte list"
type_synonym jsstring = "nat list"

text \<open>\<open>Buffer.from(value, "utf8")\<close>: one code unit alone, then the whole string.
  A lone surrogate is encoded as U+FFFD.\<close>

definition utf8_unit :: "nat \<Rightarrow> buffer" where
  "utf8_unit c =
     (if c < 0x80 then [of_nat c]
      else if c < 0x800 then [of_nat (0xC0 + c div 64), of_nat (0x80 + c mod 64)]
      else if 0xD800 \<le> c \<and> c < 0xE000 then [0xEF, 0xBF, 0xBD]
      else [of_nat (0xE0 + c div 4096), of_nat (0x80 + (c div 64) mod 64),
            of_nat (0x80 + c mod 64)])"

definition utf8_pair :: "nat \<Rightarrow> nat \<Rightarrow> buffer" where
  "utf8_pair hi lo =
     (let cp = 0x10000 + (hi - 0xD800) * 1024 + (lo - 0xDC00)
      in [of_nat (0xF0 + cp div 262144), of_nat (0x80 + (cp div 4096) mod 64),
          of_nat (0x80 + (cp div 64) mod 64), of_nat (0x80 + cp mod 64)])"

fun utf8_encode :: "jsstring \<Rightarrow> buffer" where
  "utf8_encode [] = []"
| "utf8_encode [c] = utf8_unit c"
| "utf8_encode (c # d # ds) =
     (if 0xD800 \<le> c \<and> c < 0xDC00 \<and> 0xDC00 \<le> d \<and> d < 0xE000
      then utf8_pair c d @ utf8_encode ds
      else utf8_unit c @ utf8_encode (d # ds))"

text \<open>\<open>source.copy(target, targetStart, 0, sourceEnd)\<close>: the copy stops at the end
  of the target.\<close>

definition buffer_copy :: "buffer \<Rightarrow> buffer \<Rightarrow> nat \<Rightarrow> nat \<Rightarrow> buffer" where
  "buffer_copy src target targetStart sourceEnd =
     (let piece = take (length target - targetStart) (take sourceEnd src)
      in take targetStart target @ piece @ drop (targetStart + length piece) target)"

text \<open>\<open>buf.fill(value, start, end)\<close>.\<close>

definition buffer_fill :: "buffer \<Rightarrow> byte \<Rightarrow> nat \<Rightarrow> nat \<Rightarrow> buffer" where
  "buffer_fill buf v start end' =
     take start buf @ replicate (min end' (length buf) - start) v @ drop (max start end') buf"

text \<open>\<open>buf.subarray(start, end)\<close> for non-negative bounds.\<close>

definition subarray :: "buffer \<Rightarrow> nat \<Rightarrow> nat \<Rightarrow> buffer" where
  "subarray buf start end' = take (end' - start) (drop start buf)"

text \<open>\<open>n.toString(8)\<close> and \<open>s.padStart(k, "0")\<close>.\<close>

fun toString8 :: "nat \<Rightarrow> jsstring" where
  "toString8 n = (if n < 8 then [48 + n] else toString8 (n div 8) @ [48 + n mod 8])"

declare toString8.simps [simp del]

definition padStart :: "nat \<Rightarrow> nat \<Rightarrow> jsstring \<Rightarrow> jsstring" where
  "padStart k c s = replicate (k - length s) c @ s"

section \<open>The header encoder\<close>

definition writeString :: "buffer \<Rightarrow> nat \<Rightarrow> nat \<Rightarrow> jsstring \<Rightarrow> buffer" where
  "writeString buf offset len v =
     (let bytes = utf8_encode v
      in buffer_copy bytes buf offset (min (length bytes) len))"

definition writeOctal :: "buffer \<Rightarrow> nat \<Rightarrow> nat \<Rightarrow> real \<Rightarrow> buffer" where
  "writeOctal buf offset len v =
     (let raw = nat (max 0 \<lfloor>v\<rfloor>);
          oct = toString8 raw;
          padded = padStart (len - 1) 48 oct;
          field = padded @ [0]
      in writeString buf offset len field)"

definition computeTarChecksum :: "buffer \<Rightarrow> nat" where
  "computeTarChecksum buf = foldl (\<lambda>sum b. sum + unat b) 0 buf"

definition writeChecksum :: "buffer \<Rightarrow> nat \<Rightarrow> buffer" where
  "writeChecksum buf checksum =
     (let oct = padStart 6 48 (toString8 checksum);
          buf1 = writeString buf 148 6 oct;
          buf2 = buf1[154 := 0]
      in buf2[155 := 0x20])"

definition buildUstarHeader :: "jsstring \<Rightarrow> nat \<Rightarrow> real \<Rightarrow> buffer" where
  "buildUstarHeader name sizeBytes mtimeSeconds =
     (let buf0 = replicate 512 (0 :: byte);
          buf1 = writeString buf0 0 100 name;
          buf2 = writeOctal buf1 100 8 420;
          buf3 = writeOctal buf2 108 8 0;
          buf4 = writeOctal buf3 116 8 0;
          buf5 = writeOctal buf4 124 12 (real sizeBytes);
          buf6 = writeOctal buf5 136 12 (of_int (max 0 \<lfloor>mtimeSeconds\<rfloor>));
          buf7 = buffer_fill buf6 0x20 148 156;
          buf8 = buf7[156 := 0x30];
          buf9 = writeString buf8 257 6 [117, 115, 116, 97, 114, 0];
          buf10 = writeString buf9 263 2 [48, 48];
          checksum = computeTarChecksum buf10
      in writeChecksum buf10 checksum)"

section \<open>Entry names\<close>

text \<open>\<open>String.prototype.trim\<close> strips the white space and line terminator code units
  of ECMAScript from both ends.\<close>

definition is_js_whitespace :: "nat \<Rightarrow> bool" where
  "is_js_whitespace c =
     (c \<in> {0x9, 0xA, 0xB, 0xC, 0xD, 0x20, 0xA0, 0x1680, 0x2028, 0x2029, 0x202F, 0x205F,
            0x3000, 0xFEFF}
      \<or> (0x2000 \<le> c \<and> c \<le> 0x200A))"

definition trim :: "jsstring \<Rightarrow> jsstring" where
  "trim s = rev (dropWhile is_js_whitespace (rev (dropWhile is_js_whitespace s)))"

text \<open>The character class \<open>[A-Za-z0-9._-]\<close>.\<close>

definition safe_char :: "nat \<Rightarrow> bool" where
  "safe_char c =
     ((65 \<le> c \<and> c \<le> 90) \<or> (97 \<le> c \<and> c \<le> 122) \<or> (48 \<le> c \<and> c \<le> 57)
      \<or> c = 46 \<or> c = 95 \<or> c = 45)"

definition isSafeTarName :: "jsstring \<Rightarrow> bool" where
  "isSafeTarName name =
     (let normalized = trim name
      in if normalized = [] then False
         else if 0 \<in> set normalized then False
         else if 47 \<in> set normalized \<or> 92 \<in> set normalized \<or> 58 \<in> set normalized
           then False
         else (let bytes = length (utf8_encode normalized)
               in 0 < bytes \<and> bytes \<le> 100
                  \<and> 1 \<le> length normalized \<and> length normalized \<le> 100
                  \<and> list_all safe_char normalized))"

section \<open>The header reader of the test suite\<close>

text \<open>
  \<open>parseTarHeader\<close> of \<open>tests/shared/tar.test.ts\<close> reads a numeric field with
  \<open>toString("utf8")\<close>, removes the NUL characters, trims and calls \<open>Number.parseInt\<close>
  with radix 8.  The decoder is modelled on bytes below 128, one code unit each;
  \<open>None\<close> stands for a field with another byte.  \<open>parseInt8\<close> yields \<open>None\<close> for NaN.
\<close>

definition decodeAscii :: "buffer \<Rightarrow> jsstring option" where
  "decodeAscii buf = (if list_all (\<lambda>b. unat b < 128) buf then Some (map unat buf) else None)"

definition octalDigit :: "nat \<Rightarrow> bool" where
  "octalDigit c = (48 \<le> c \<and> c \<le> 55)"

definition parseInt8 :: "jsstring \<Rightarrow> int option" where
  "parseInt8 s =
     (let s1 = dropWhile is_js_whitespace s;
          negative = (case s1 of [] \<Rightarrow> False | c # r \<Rightarrow> c = 45);
          s2 = (case s1 of [] \<Rightarrow> [] | c # r \<Rightarrow> if c = 45 \<or> c = 43 then r else s1);
          ds = takeWhile octalDigit s2
      in if ds = [] then None
         else Some ((if negative then - 1 else 1)
                    * int (foldl (\<lambda>acc d. acc * 8 + (d - 48)) 0 ds)))"

definition parseOctalText :: "buffer \<Rightarrow> nat option" where
  "parseOctalText field =
     (case decodeAscii field of
        None \<Rightarrow> None
      | Some sizeRaw \<Rightarrow>
          (let sizeText = trim (filter (\<lambda>c. c \<noteq> 0) sizeRaw);
               size = (if sizeText = [] then Some 0 else parseInt8 sizeText)
           in Some (case size of
                      None \<Rightarrow> 0
                    | Some v \<Rightarrow> if v \<ge> 0 then nat v else 0)))"

definition parseTarHeaderSize :: "buffer \<Rightarrow> nat option" where
  "parseTarHeaderSize block = parseOctalText (subarray block 124 136)"

section \<open>Entries, layout and size\<close>

datatype TarEntrySource = BufferSource buffer | FileSource string nat

record TarEntry =
  name :: jsstring
  source :: TarEntrySource
  mtimeSeconds :: real

record TarLayoutEntry =
  name :: jsstring
  header :: buffer
  source :: TarEntrySource
  headerStart :: nat
  contentStart :: nat
  contentSize :: nat
  paddingSize :: nat
  totalSize :: nat

record TarStream =
  layout :: "TarLayoutEntry list"
  totalSizeBytes :: nat

datatype error =
    InvalidTarEntryName jsstring
  | FileOpenError string
  | TypeError

definition computePaddingSize :: "nat \<Rightarrow> nat" where
  "computePaddingSize sizeBytes =
     (let m = sizeBytes mod 512 in if m = 0 then 0 else 512 - m)"

text \<open>The expression
  \<open>entry.source.type === "buffer" ? entry.source.buffer.length : entry.source.sizeBytes\<close>.\<close>

definition sourceContentSize :: "TarEntrySource \<Rightarrow> nat" where
  "sourceContentSize src = (case src of BufferSource b \<Rightarrow> length b | FileSource p n \<Rightarrow> n)"

definition computeTarSizeBytes :: "TarEntry list \<Rightarrow> nat" where
  "computeTarSizeBytes entries =
     foldl (\<lambda>total entry.
              (let contentSize = sourceContentSize (TarEntry.source entry)
               in total + 512 + contentSize + computePaddingSize contentSize))
           0 entries
     + 1024"

text \<open>The constructor's loop, with its two variables \<open>normalized\<close> and \<open>cursor\<close>.\<close>

fun buildLayout ::
  "TarEntry list \<Rightarrow> TarLayoutEntry list \<Rightarrow> nat \<Rightarrow> error + (TarLayoutEntry list \<times> nat)"
where
  "buildLayout [] normalized cursor = Inr (normalized, cursor)"
| "buildLayout (entry # rest) normalized cursor =
     (let nm = TarEntry.name entry
      in if \<not> isSafeTarName nm then Inl (InvalidTarEntryName nm)
         else
           (let cs = sourceContentSize (TarEntry.source entry);
                hd' = buildUstarHeader nm cs (mtimeSeconds entry);
                ps = computePaddingSize cs;
                ts = 512 + cs + ps
            in buildLayout rest
                 (normalized @
                    [\<lparr> TarLayoutEntry.name = nm, header = hd',
                       TarLayoutEntry.source = TarEntry.source entry,
                       headerStart = cursor, contentStart = cursor + 512,
                       contentSize = cs, paddingSize = ps, totalSize = ts \<rparr>])
                 (cursor + ts)))"

definition newTarStream :: "TarEntry list \<Rightarrow> error + TarStream" where
  "newTarStream entries =
     (case buildLayout entries [] 0 of
        Inl e \<Rightarrow> Inl e
      | Inr (normalized, cursor) \<Rightarrow>
          Inr \<lparr> layout = normalized, totalSizeBytes = cursor + 1024 \<rparr>)"

definition getSizeBytes :: "TarStream \<Rightarrow> nat" where
  "getSizeBytes ts = totalSizeBytes ts"

section \<open>The resumable byte stream\<close>

text \<open>The file system is a map from paths to file contents.  An open file handle gives
  access to the bytes of the file it was opened on.\<close>

type_synonym filesystem = "string \<Rightarrow> buffer option"

datatype Phase = entry_header | entry_content | entry_padding | eof

record SeekState =
  phase :: Phase
  entryIndex :: nat
  phaseOffset :: nat
  fileHandle :: "buffer option"

text \<open>The loop of \<open>seek\<close>: the first argument holds the layout entries from index \<open>i\<close>
  on.  The cursor never exceeds the offset when a difference is taken, so the
  subtractions are exact.\<close>

fun seekLoop :: "TarLayoutEntry list \<Rightarrow> nat \<Rightarrow> nat \<Rightarrow> nat \<Rightarrow> SeekState" where
  "seekLoop [] offset i cursor =
     \<lparr> phase = eof, entryIndex = i, phaseOffset = offset - cursor, fileHandle = None \<rparr>"
| "seekLoop (entry # rest) offset i cursor =
     (let next = cursor + totalSize entry
      in if offset < next then
           (let rel = offset - cursor
            in if rel < 512 then
                 \<lparr> phase = entry_header, entryIndex = i, phaseOffset = rel,
                    fileHandle = None \<rparr>
               else
                 (let relContent = rel - 512
                  in if relContent < contentSize entry then
                       \<lparr> phase = entry_content, entryIndex = i, phaseOffset = relContent,
                          fileHandle = None \<rparr>
                     else
                       \<lparr> phase = entry_padding, entryIndex = i,
                          phaseOffset = relContent - contentSize entry, fileHandle = None \<rparr>))
         else seekLoop rest offset (i + 1) next)"

definition seek :: "TarStream \<Rightarrow> nat \<Rightarrow> SeekState" where
  "seek ts offset = seekLoop (layout ts) offset 0 0"

text \<open>The state after the padding of an entry: the next header, or the end marker.\<close>

definition nextEntry :: "TarStream \<Rightarrow> SeekState \<Rightarrow> SeekState" where
  "nextEntry ts st =
     (let i = entryIndex st + 1
      in st \<lparr> entryIndex := i, phaseOffset := 0, fileHandle := None,
              phase := (if i \<ge> length (layout ts) then eof else entry_header) \<rparr>)"

definition toPadding :: "SeekState \<Rightarrow> SeekState" where
  "toPadding st = st \<lparr> phase := entry_padding, phaseOffset := 0 \<rparr>"

definition closeFileHandle :: "SeekState \<Rightarrow> SeekState" where
  "closeFileHandle st = st \<lparr> fileHandle := None \<rparr>"

definition readNext ::
  "filesystem \<Rightarrow> TarStream \<Rightarrow> SeekState \<Rightarrow> nat \<Rightarrow> error + (buffer \<times> SeekState)"
where
  "readNext fs ts st maxBytes =
     (let want = max 1 maxBytes
      in if phase st = eof then
           (let remaining = 1024 - phaseOffset st
            in if remaining \<le> 0 then Inr ([], st)
               else (let n = min want remaining
                     in Inr (replicate n 0, st \<lparr> phaseOffset := phaseOffset st + n \<rparr>)))
         else if entryIndex st \<ge> length (layout ts) then Inl TypeError
         else
           (let entry = layout ts ! entryIndex st
            in if phase st = entry_header then
                 (let remaining = 512 - phaseOffset st;
                      n = min want remaining;
                      out = subarray (header entry) (phaseOffset st) (phaseOffset st + n);
                      st1 = st \<lparr> phaseOffset := phaseOffset st + n \<rparr>
                  in Inr (out, if phaseOffset st1 \<ge> 512
                               then st1 \<lparr> phase := entry_content, phaseOffset := 0 \<rparr>
                               else st1))
               else if phase st = entry_content then
                 (let remaining = contentSize entry - phaseOffset st
                  in if remaining \<le> 0 then Inr ([], closeFileHandle (toPadding st))
                     else
                       (let n = min want remaining
                        in case TarLayoutEntry.source entry of
                             BufferSource b \<Rightarrow>
                               (let buf = subarray b (phaseOffset st) (phaseOffset st + n);
                                    st1 = st \<lparr> phaseOffset := phaseOffset st + n \<rparr>
                                in Inr (buf, if phaseOffset st1 \<ge> contentSize entry
                                             then toPadding st1 else st1))
                           | FileSource path sz \<Rightarrow>
                               (case (case fileHandle st of
                                        Some h \<Rightarrow> Some h
                                      | None \<Rightarrow> fs path) of
                                  None \<Rightarrow> Inl (FileOpenError path)
                                | Some h \<Rightarrow>
                                    (let st0 = st \<lparr> fileHandle := Some h \<rparr>;
                                         bytesRead = min n (length h - phaseOffset st0)
                                     in if bytesRead \<le> 0
                                        then Inr ([], toPadding (closeFileHandle st0))
                                        else
                                          (let st1 = st0 \<lparr> phaseOffset :=
                                                              phaseOffset st0 + bytesRead \<rparr>;
                                               out = subarray h (phaseOffset st0)
                                                       (phaseOffset st0 + bytesRead)
                                           in Inr (out,
                                                   if phaseOffset st1 \<ge> contentSize entry
                                                   then toPadding (closeFileHandle st1)
                                                   else st1))))))
               else
                 (let remaining = paddingSize entry - phaseOffset st
                  in if remaining \<le> 0 then Inr ([], nextEntry ts st)
                     else
                       (let n = min want remaining;
                            st1 = st \<lparr> phaseOffset := phaseOffset st + n \<rparr>
                        in Inr (replicate n 0,
                                if phaseOffset st1 \<ge> paddingSize entry
                                then nextEntry ts st1 else st1)))))"

text \<open>The inner loop of \<open>iterateChunks\<close>: it fills \<open>parts\<close> until \<open>remaining\<close> bytes are
  read or more than 50 reads in a row were empty.\<close>

function readParts ::
  "filesystem \<Rightarrow> TarStream \<Rightarrow> SeekState \<Rightarrow> nat \<Rightarrow> nat \<Rightarrow> buffer list \<Rightarrow> nat
     \<Rightarrow> error + (buffer list \<times> SeekState \<times> nat)"
where
  "readParts fs ts st remaining emptyReadsInARow parts position =
     (if remaining > 0 then
        (case readNext fs ts st remaining of
           Inl e \<Rightarrow> Inl e
         | Inr (read, st') \<Rightarrow>
             if length read \<le> 0 then
               (if emptyReadsInARow + 1 > 50 then Inr (parts, st', position)
                else readParts fs ts st' remaining (emptyReadsInARow + 1) parts position)
             else readParts fs ts st' (remaining - length read) 0 (parts @ [read])
                    (position + length read))
      else Inr (parts, st, position))"
  by pat_completeness auto
termination
  by (relation "measures [\<lambda>(fs, ts, st, remaining, e, parts, position). remaining,
                          \<lambda>(fs, ts, st, remaining, e, parts, position). 51 - e]") auto

declare readParts.simps [simp del]

lemma readParts_appends:
  "readParts fs ts st remaining e parts position = Inr (parts', st', position') \<Longrightarrow>
     \<exists>new. parts' = parts @ new \<and> [] \<notin> set new
           \<and> position' = position + length (concat new)"
proof (induction fs ts st remaining e parts position rule: readParts.induct)
  case (1 fs ts st remaining e parts position)
  show ?case
  proof (cases "remaining > 0")
    case False
    with "1.prems" show ?thesis by (simp add: readParts.simps)
  next
    case True
    show ?thesis
    proof (cases "readNext fs ts st remaining")
      case (Inl err)
      with True "1.prems" show ?thesis by (simp add: readParts.simps)
    next
      case (Inr r)
      obtain rd st1 where r: "r = (rd, st1)" by (cases r)
      show ?thesis
      proof (cases "length rd \<le> 0")
        case empty: True
        show ?thesis
        proof (cases "e + 1 > 50")
          case True
          with \<open>remaining > 0\<close> Inr r empty "1.prems" show ?thesis
            by (simp add: readParts.simps)
        next
          case False
          with \<open>remaining > 0\<close> Inr r empty "1.prems"
          have "readParts fs ts st1 remaining (e + 1) parts position
                  = Inr (parts', st', position')"
            by (simp add: readParts.simps)
          with "1.IH"(1) [OF \<open>remaining > 0\<close> Inr r [symmetric] empty False]
          show ?thesis by simp
        qed
      next
        case nonempty: False
        with \<open>remaining > 0\<close> Inr r "1.prems"
        have "readParts fs ts st1 (remaining - length rd) 0 (parts @ [rd])
                (position + length rd) = Inr (parts', st', position')"
          by (simp add: readParts.simps)
        with "1.IH"(2) [OF \<open>remaining > 0\<close> Inr r [symmetric] nonempty]
        obtain new where "parts' = (parts @ [rd]) @ new" "[] \<notin> set new"
          "position' = position + length rd + length (concat new)"
          by blast
        with nonempty show ?thesis
          by (intro exI [of _ "rd # new"]) auto
      qed
    qed
  qed
qed

text \<open>A JavaScript number, with \<open>Math.floor(x)\<close> and \<open>Math.max(k, x)\<close> for a finite
  \<open>k\<close>: \<open>NaN\<close> stays \<open>NaN\<close>, and \<open>Math.max(k, -Infinity)\<close> is \<open>k\<close>.\<close>

datatype jsnumber = Finite real | NaN | PosInfinity | NegInfinity

definition mathFloor :: "jsnumber \<Rightarrow> jsnumber" where
  "mathFloor x =
     (case x of
        Finite r \<Rightarrow> Finite (of_int \<lfloor>r\<rfloor>)
      | NaN \<Rightarrow> NaN
      | PosInfinity \<Rightarrow> PosInfinity
      | NegInfinity \<Rightarrow> NegInfinity)"

definition mathMax :: "real \<Rightarrow> jsnumber \<Rightarrow> jsnumber" where
  "mathMax k x =
     (case x of
        Finite r \<Rightarrow> Finite (max k r)
      | NaN \<Rightarrow> NaN
      | PosInfinity \<Rightarrow> PosInfinity
      | NegInfinity \<Rightarrow> Finite k)"

text \<open>The comparisons \<open>x < k\<close> and \<open>x >= k\<close> with a finite \<open>k\<close>: both are false for
  \<open>NaN\<close>.\<close>

definition jsLess :: "jsnumber \<Rightarrow> real \<Rightarrow> bool" where
  "jsLess x k =
     (case x of Finite r \<Rightarrow> r < k | NaN \<Rightarrow> False | PosInfinity \<Rightarrow> False
      | NegInfinity \<Rightarrow> True)"

definition jsGreaterEq :: "jsnumber \<Rightarrow> real \<Rightarrow> bool" where
  "jsGreaterEq x k =
     (case x of Finite r \<Rightarrow> k \<le> r | NaN \<Rightarrow> False | PosInfinity \<Rightarrow> True
      | NegInfinity \<Rightarrow> False)"

text \<open>\<open>Math.min(normalizedChunk, remainingTar)\<close>, where \<open>normalizedChunk\<close> is a whole
  number, \<open>Infinity\<close> or \<open>NaN\<close>.  The value \<open>None\<close> stands for a result \<open>NaN\<close> or
  \<open>-Infinity\<close>, for which the test \<open>remaining > 0\<close> of the inner loop is false.\<close>

definition desiredBytes :: "jsnumber \<Rightarrow> nat \<Rightarrow> nat option" where
  "desiredBytes normalizedChunk remainingTar =
     (case normalizedChunk of
        Finite c \<Rightarrow> Some (min (nat \<lfloor>c\<rfloor>) remainingTar)
      | PosInfinity \<Rightarrow> Some remainingTar
      | NaN \<Rightarrow> None
      | NegInfinity \<Rightarrow> None)"

text \<open>The outer loop of \<open>iterateChunks\<close>.  The result is the list of yielded chunks and
  the error that ended the iteration, if any.  When \<open>desired\<close> is \<open>NaN\<close> the inner loop
  reads nothing, \<open>parts\<close> is empty and the loop ends.\<close>

function iterateLoop ::
  "filesystem \<Rightarrow> TarStream \<Rightarrow> SeekState \<Rightarrow> nat \<Rightarrow> jsnumber \<Rightarrow> buffer list \<times> error option"
where
  "iterateLoop fs ts st position normalizedChunk =
     (if position < totalSizeBytes ts then
        (let remainingTar = totalSizeBytes ts - position
         in case desiredBytes normalizedChunk remainingTar of
              None \<Rightarrow> ([], None)
            | Some desired \<Rightarrow>
                (case readParts fs ts st desired 0 [] position of
                   Inl e \<Rightarrow> ([], Some e)
                 | Inr (parts, st', position') \<Rightarrow>
                     if length parts = 0 then ([], None)
                     else (case iterateLoop fs ts st' position' normalizedChunk of
                             (chunks, err) \<Rightarrow> (concat parts # chunks, err))))
      else ([], None))"
  by pat_completeness auto
termination
proof (relation "measure (\<lambda>(fs, ts, st, position, c). totalSizeBytes ts - position)")
  show "wf (measure (\<lambda>(fs, ts, st, position, c). totalSizeBytes ts - position))"
    by simp
next
  fix fs :: filesystem and ts :: TarStream and st :: SeekState
    and position remainingTar desired :: nat and normalizedChunk :: jsnumber
    and x2 :: "buffer list \<times> SeekState \<times> nat" and parts :: "buffer list"
    and y :: "SeekState \<times> nat" and st' :: SeekState and position' :: nat
  assume lt: "position < totalSizeBytes ts"
    and "remainingTar = totalSizeBytes ts - position"
    and "desiredBytes normalizedChunk remainingTar = Some desired"
    and rp: "readParts fs ts st desired 0 [] position = Inr x2"
    and x2: "(parts, y) = x2" and y: "(st', position') = y"
    and ne: "length parts \<noteq> 0"
  from rp x2 y have "readParts fs ts st desired 0 [] position = Inr (parts, st', position')"
    by simp
  from readParts_appends [OF this] obtain new
    where "parts = new" "[] \<notin> set new" "position' = position + length (concat new)"
    by auto
  with ne have "position < position'" by (cases new) auto
  with lt show "((fs, ts, st', position', normalizedChunk), (fs, ts, st, position, normalizedChunk))
          \<in> measure (\<lambda>(fs, ts, st, position, c). totalSizeBytes ts - position)"
    by simp
qed

declare iterateLoop.simps [simp del]

text \<open>\<open>iterateChunks\<close>.  A finite \<open>normalizedStart\<close> is a whole number, not negative.
  With \<open>Infinity\<close> the guard \<open>normalizedStart >= totalSizeBytes\<close> returns.  With \<open>NaN\<close>
  every comparison is false: the guard does not return, \<open>seek\<close> runs through the layout
  to the end marker, and the loop test \<open>position < totalSizeBytes\<close> fails at once.
  \<open>Math.max(0, x)\<close> is never \<open>-Infinity\<close>.\<close>

definition iterateChunks ::
  "filesystem \<Rightarrow> TarStream \<Rightarrow> jsnumber \<Rightarrow> jsnumber \<Rightarrow> buffer list \<times> error option"
where
  "iterateChunks fs ts startOffset chunkSize =
     (let normalizedStart = mathMax 0 (mathFloor startOffset);
          normalizedChunk = mathMax 1 (mathFloor chunkSize)
      in case normalizedStart of
           Finite r \<Rightarrow>
             (let position = nat \<lfloor>r\<rfloor>
              in if position \<ge> totalSizeBytes ts then ([], None)
                 else iterateLoop fs ts (seek ts position) position normalizedChunk)
         | PosInfinity \<Rightarrow> ([], None)
         | NaN \<Rightarrow> ([], None)
         | NegInfinity \<Rightarrow> ([], None))"

section \<open>The upload loop\<close>

text \<open>
  The server is reached through two calls of the client, \<open>appendUploadChunk\<close> and
  \<open>getUploadOffset\<close>.  Each takes the state of the world and returns the new state
  with either the offset of the \<open>Upload-Offset\<close> header or the exception thrown.
  The session id and the timeout are fixed for one upload and left out.
\<close>

datatype upload_error =
    EnriProxyHttpError nat
  | OtherError
  | TarStreamError error
  | UploadFailedAfterRetries
  | UploadStalled
  | UploadIncomplete nat nat
  | TarSizeMismatch
  | InvalidServerOffset nat

record 's EnriProxyClient =
  appendUploadChunk :: "'s \<Rightarrow> nat \<Rightarrow> buffer \<Rightarrow> (upload_error + nat) \<times> 's"
  getUploadOffset :: "'s \<Rightarrow> (upload_error + nat) \<times> 's"

definition maxAttempts :: nat where
  "maxAttempts = 5"

text \<open>The statuses that \<open>uploadChunkWithRetry\<close> rethrows at once.\<close>

definition notRetried :: "upload_error \<Rightarrow> bool" where
  "notRetried err =
     (case err of
        EnriProxyHttpError status \<Rightarrow> status \<in> {400, 401, 403, 404, 410, 413}
      | _ \<Rightarrow> False)"

text \<open>The loop of \<open>uploadChunkWithRetry\<close> from attempt \<open>attempt\<close> on.  The back-off delay
  between two attempts only waits.\<close>

function uploadChunkAttempts ::
  "'s EnriProxyClient \<Rightarrow> 's \<Rightarrow> nat \<Rightarrow> buffer \<Rightarrow> nat \<Rightarrow> (upload_error + nat) \<times> 's"
where
  "uploadChunkAttempts client s offset chunk attempt =
     (if attempt \<le> maxAttempts then
        (case appendUploadChunk client s offset chunk of
           (Inr newOffset, s1) \<Rightarrow> (Inr newOffset, s1)
         | (Inl err, s1) \<Rightarrow>
             (case (if err = EnriProxyHttpError 409
                    then (case getUploadOffset client s1 of
                            (Inl err2, s2) \<Rightarrow> (Some (Inl err2), s2)
                          | (Inr actual, s2) \<Rightarrow>
                              if actual \<noteq> offset then (Some (Inr actual), s2)
                              else (None, s2))
                    else (None, s1)) of
                (Some result, s2) \<Rightarrow> (result, s2)
              | (None, s2) \<Rightarrow>
                  if notRetried err then (Inl err, s2)
                  else if attempt = maxAttempts then (Inl err, s2)
                  else uploadChunkAttempts client s2 offset chunk (attempt + 1)))
      else (Inl UploadFailedAfterRetries, s))"
  by pat_completeness auto
termination
  by (relation "measure (\<lambda>(client, s, offset, chunk, attempt). Suc maxAttempts - attempt)")
     auto

declare uploadChunkAttempts.simps [simp del]

definition uploadChunkWithRetry ::
  "'s EnriProxyClient \<Rightarrow> 's \<Rightarrow> nat \<Rightarrow> buffer \<Rightarrow> (upload_error + nat) \<times> 's"
where
  "uploadChunkWithRetry client s offset chunk = uploadChunkAttempts client s offset chunk 1"

text \<open>The \<open>for await\<close> loop over the chunks of one resumption.  The result holds the
  offset, \<open>madeProgress\<close> and whether the loop left through \<open>break\<close>.\<close>

fun sendChunks ::
  "'s EnriProxyClient \<Rightarrow> 's \<Rightarrow> nat \<Rightarrow> nat \<Rightarrow> bool \<Rightarrow> buffer list
     \<Rightarrow> (upload_error + (nat \<times> bool \<times> bool)) \<times> 's"
where
  "sendChunks client s tarSizeBytes offset madeProgress [] =
     (Inr (offset, madeProgress, False), s)"
| "sendChunks client s tarSizeBytes offset madeProgress (chunk # rest) =
     (if length chunk = 0 then sendChunks client s tarSizeBytes offset madeProgress rest
      else
        (let expectedOffset = offset
         in case uploadChunkWithRetry client s expectedOffset chunk of
              (Inl err, s1) \<Rightarrow> (Inl err, s1)
            | (Inr nextOffset, s1) \<Rightarrow>
                if nextOffset \<noteq> expectedOffset + length chunk
                  then (Inr (nextOffset, True, True), s1)
                else if nextOffset \<ge> tarSizeBytes then (Inr (nextOffset, True, True), s1)
                else sendChunks client s1 tarSizeBytes nextOffset True rest))"

text \<open>The \<open>while (offset < tarSizeBytes)\<close> loop of \<open>uploadImageSetAsMediaSetTar\<close> and the
  check after it.  A server may keep the loop running for ever; then the value is
  \<open>None\<close>.  The generator's own exception surfaces only when the \<open>for await\<close> loop
  asks for a chunk after the last one yielded.\<close>

partial_function (option) uploadTarLoop ::
  "filesystem \<Rightarrow> TarStream \<Rightarrow> 's EnriProxyClient \<Rightarrow> 's \<Rightarrow> nat \<Rightarrow> jsnumber \<Rightarrow> nat
     \<Rightarrow> ((upload_error + nat) \<times> 's) option"
where
  "uploadTarLoop fs tar client s tarSizeBytes chunkSize offset =
     (if offset < tarSizeBytes then
        (case iterateChunks fs tar (Finite (real offset)) chunkSize of
           (chunks, generatorError) \<Rightarrow>
             (case sendChunks client s tarSizeBytes offset False chunks of
                (Inl err, s1) \<Rightarrow> Some (Inl err, s1)
              | (Inr (offset', madeProgress, left), s1) \<Rightarrow>
                  (case (if left then None else generatorError) of
                     Some e \<Rightarrow> Some (Inl (TarStreamError e), s1)
                   | None \<Rightarrow>
                       if \<not> madeProgress then Some (Inl UploadStalled, s1)
                       else uploadTarLoop fs tar client s1 tarSizeBytes chunkSize offset')))
      else if offset \<noteq> tarSizeBytes
        then Some (Inl (UploadIncomplete offset tarSizeBytes), s)
      else Some (Inr offset, s))"

declare uploadTarLoop.simps [code]

text \<open>\<open>uploadImageSetAsMediaSetTar\<close> from the size computation on, for given entries and
  the \<open>chunk_size_bytes\<close> of the created session, a JavaScript number (\<open>NaN\<close> when the
  response lacks the field).  On success the result is the final offset.  An offset
  from \<open>getUploadOffset\<close> is a whole number, not negative.\<close>

definition uploadTar ::
  "filesystem \<Rightarrow> 's EnriProxyClient \<Rightarrow> 's \<Rightarrow> TarEntry list \<Rightarrow> jsnumber
     \<Rightarrow> ((upload_error + nat) \<times> 's) option"
where
  "uploadTar fs client s entries chunk_size_bytes =
     (let tarSizeBytes = computeTarSizeBytes entries
      in case newTarStream entries of
           Inl e \<Rightarrow> Some (Inl (TarStreamError e), s)
         | Inr tar \<Rightarrow>
             if getSizeBytes tar \<noteq> tarSizeBytes then Some (Inl TarSizeMismatch, s)
             else
               (let chunkSize = mathMax 1 (mathFloor chunk_size_bytes)
                in case getUploadOffset client s of
                     (Inl err, s1) \<Rightarrow> Some (Inl err, s1)
                   | (Inr offset, s1) \<Rightarrow>
                       if offset > tarSizeBytes
                         then Some (Inl (InvalidServerOffset offset), s1)
                       else uploadTarLoop fs tar client s1 tarSizeBytes chunkSize offset))"

section \<open>The bytes of the archive\<close>

definition sourceBytes :: "filesystem \<Rightarrow> TarEntrySource \<Rightarrow> buffer" where
  "sourceBytes fs src =
     (case src of
        BufferSource b \<Rightarrow> b
      | FileSource p n \<Rightarrow> (case fs p of Some c \<Rightarrow> c | None \<Rightarrow> []))"

definition entryBytes :: "filesystem \<Rightarrow> TarLayoutEntry \<Rightarrow> buffer" where
  "entryBytes fs e =
     header e @ sourceBytes fs (TarLayoutEntry.source e) @ replicate (paddingSize e) 0"

definition archiveBytes :: "filesystem \<Rightarrow> TarLayoutEntry list \<Rightarrow> buffer" where
  "archiveBytes fs lay = concat (map (entryBytes fs) lay) @ replicate 1024 0"

definition fileReadable :: "filesystem \<Rightarrow> TarEntrySource \<Rightarrow> bool" where
  "fileReadable fs src =
     (case src of
        BufferSource b \<Rightarrow> True
      | FileSource p n \<Rightarrow> (case fs p of Some c \<Rightarrow> length c = n | None \<Rightarrow> False))"

definition wfEntry :: "filesystem \<Rightarrow> TarLayoutEntry \<Rightarrow> bool" where
  "wfEntry fs e =
     (length (header e) = 512
      \<and> fileReadable fs (TarLayoutEntry.source e)
      \<and> contentSize e = sourceContentSize (TarLayoutEntry.source e)
      \<and> totalSize e = 512 + contentSize e + paddingSize e)"

definition stateOffset :: "TarLayoutEntry \<Rightarrow> SeekState \<Rightarrow> nat" where
  "stateOffset e st =
     (case phase st of
        entry_header \<Rightarrow> phaseOffset st
      | entry_content \<Rightarrow> 512 + phaseOffset st
      | entry_padding \<Rightarrow> 512 + contentSize e + phaseOffset st
      | eof \<Rightarrow> 0)"

definition restBytes :: "filesystem \<Rightarrow> TarLayoutEntry list \<Rightarrow> SeekState \<Rightarrow> buffer" where
  "restBytes fs lay st =
     (if phase st = eof then replicate (1024 - phaseOffset st) 0
      else drop (stateOffset (lay ! entryIndex st) st) (entryBytes fs (lay ! entryIndex st))
           @ archiveBytes fs (drop (Suc (entryIndex st)) lay))"

definition handleOk :: "filesystem \<Rightarrow> TarLayoutEntry \<Rightarrow> SeekState \<Rightarrow> bool" where
  "handleOk fs e st =
     (case fileHandle st of
        None \<Rightarrow> True
      | Some h \<Rightarrow> h = sourceBytes fs (TarLayoutEntry.source e))"

definition wfState :: "filesystem \<Rightarrow> TarLayoutEntry list \<Rightarrow> SeekState \<Rightarrow> bool" where
  "wfState fs lay st =
     (case phase st of
        eof \<Rightarrow> phaseOffset st \<le> 1024
      | entry_header \<Rightarrow>
          entryIndex st < length lay \<and> phaseOffset st < 512 \<and> fileHandle st = None
      | entry_content \<Rightarrow>
          entryIndex st < length lay \<and> phaseOffset st \<le> contentSize (lay ! entryIndex st)
          \<and> handleOk fs (lay ! entryIndex st) st
      | entry_padding \<Rightarrow>
          entryIndex st < length lay \<and> phaseOffset st \<le> paddingSize (lay ! entryIndex st))"

definition slack :: "TarLayoutEntry list \<Rightarrow> SeekState \<Rightarrow> nat" where
  "slack lay st =
     (case phase st of
        entry_content \<Rightarrow> if contentSize (lay ! entryIndex st) \<le> phaseOffset st then 2 else 0
      | entry_padding \<Rightarrow> if paddingSize (lay ! entryIndex st) \<le> phaseOffset st then 1 else 0
      | _ \<Rightarrow> 0)"

lemma slack_le: "slack lay st \<le> 2"
  by (simp add: slack_def split: Phase.splits)

lemma sourceBytes_length:
  "fileReadable fs src \<Longrightarrow> length (sourceBytes fs src) = sourceContentSize src"
  by (auto simp: fileReadable_def sourceBytes_def sourceContentSize_def
           split: TarEntrySource.splits option.splits)

lemma wfEntry_lengths:
  assumes "wfEntry fs e"
  shows "length (header e) = 512"
    and "length (sourceBytes fs (TarLayoutEntry.source e)) = contentSize e"
  using assms by (simp_all add: wfEntry_def sourceBytes_length)

lemma entryBytes_length:
  "wfEntry fs e \<Longrightarrow> length (entryBytes fs e) = totalSize e"
  by (simp add: wfEntry_def entryBytes_def sourceBytes_length)

lemma readNext_eof:
  assumes "phase st = eof" "wfState fs (layout ts) st"
  shows "\<exists>bs st'. readNext fs ts st m = Inr (bs, st') \<and> wfState fs (layout ts) st'
           \<and> bs @ restBytes fs (layout ts) st' = restBytes fs (layout ts) st
           \<and> length bs \<le> max 1 m
           \<and> (bs = [] \<longrightarrow> restBytes fs (layout ts) st = [])
           \<and> slack (layout ts) st' \<le> 2"
  using assms
  by (auto simp: readNext_def Let_def wfState_def restBytes_def slack_def
        replicate_add [symmetric] simp del: replicate_add)

lemma subarray_split: "drop k xs = subarray xs k (k + n) @ drop (k + n) xs"
proof -
  have "take n (drop k xs) @ drop n (drop k xs) = drop k xs"
    by (rule append_take_drop_id)
  then show ?thesis by (simp add: subarray_def add.commute)
qed

lemma subarray_length: "k + n \<le> length xs \<Longrightarrow> length (subarray xs k (k + n)) = n"
  by (simp add: subarray_def)

lemma rest_header:
  assumes "phase st = entry_header" "wfEntry fs (lay ! entryIndex st)" "phaseOffset st \<le> 512"
  shows "restBytes fs lay st =
           drop (phaseOffset st) (header (lay ! entryIndex st))
           @ sourceBytes fs (TarLayoutEntry.source (lay ! entryIndex st))
           @ replicate (paddingSize (lay ! entryIndex st)) 0
           @ archiveBytes fs (drop (Suc (entryIndex st)) lay)"
  using assms wfEntry_lengths [OF assms(2)]
  by (simp add: restBytes_def stateOffset_def entryBytes_def)

lemma rest_content:
  assumes "phase st = entry_content" "wfEntry fs (lay ! entryIndex st)"
    "phaseOffset st \<le> contentSize (lay ! entryIndex st)"
  shows "restBytes fs lay st =
           drop (phaseOffset st) (sourceBytes fs (TarLayoutEntry.source (lay ! entryIndex st)))
           @ replicate (paddingSize (lay ! entryIndex st)) 0
           @ archiveBytes fs (drop (Suc (entryIndex st)) lay)"
  using assms wfEntry_lengths [OF assms(2)]
  by (simp add: restBytes_def stateOffset_def entryBytes_def)

lemma rest_padding:
  assumes "phase st = entry_padding" "wfEntry fs (lay ! entryIndex st)"
  shows "restBytes fs lay st =
           replicate (paddingSize (lay ! entryIndex st) - phaseOffset st) 0
           @ archiveBytes fs (drop (Suc (entryIndex st)) lay)"
  using assms wfEntry_lengths [OF assms(2)]
  by (simp add: restBytes_def stateOffset_def entryBytes_def)

lemma rest_nextEntry:
  assumes "entryIndex st < length (layout ts)"
  shows "restBytes fs (layout ts) (nextEntry ts st)
           = archiveBytes fs (drop (Suc (entryIndex st)) (layout ts))"
proof (cases "Suc (entryIndex st) < length (layout ts)")
  case True
  then have "drop (Suc (entryIndex st)) (layout ts)
       = layout ts ! Suc (entryIndex st) # drop (Suc (Suc (entryIndex st))) (layout ts)"
    by (simp add: Cons_nth_drop_Suc)
  with True show ?thesis
    by (simp add: nextEntry_def Let_def restBytes_def stateOffset_def archiveBytes_def)
next
  case False
  then show ?thesis
    by (simp add: nextEntry_def Let_def restBytes_def archiveBytes_def)
qed

lemma wf_nextEntry: "wfState fs (layout ts) (nextEntry ts st)"
  by (auto simp: nextEntry_def Let_def wfState_def)

lemma slack_nextEntry: "slack (layout ts) (nextEntry ts st) = 0"
  by (auto simp: nextEntry_def Let_def slack_def)

lemma readNext_header:
  assumes "phase st = entry_header" "wfState fs (layout ts) st"
    "wfEntry fs (layout ts ! entryIndex st)"
  shows "\<exists>bs st'. readNext fs ts st m = Inr (bs, st') \<and> wfState fs (layout ts) st'
           \<and> bs @ restBytes fs (layout ts) st' = restBytes fs (layout ts) st
           \<and> length bs \<le> max 1 m \<and> bs \<noteq> []"
proof -
  let ?e = "layout ts ! entryIndex st"
  let ?k = "phaseOffset st"
  from assms have i: "entryIndex st < length (layout ts)" and k: "?k < 512"
    by (simp_all add: wfState_def)
  from assms(3) have len: "length (header ?e) = 512" by (simp add: wfEntry_def)
  define n where "n = min (max 1 m) (512 - ?k)"
  have n: "1 \<le> n" "?k + n \<le> 512" "n \<le> max 1 m" using k by (auto simp: n_def)
  define bs where "bs = subarray (header ?e) ?k (?k + n)"
  have sl: "length bs = n" using n len by (simp add: bs_def subarray_length)
  then have ne: "bs \<noteq> []" using n by auto
  have split: "drop ?k (header ?e) = bs @ drop (?k + n) (header ?e)"
    unfolding bs_def by (rule subarray_split)
  define st' where "st' = (if ?k + n \<ge> 512
      then st \<lparr> phaseOffset := ?k + n \<rparr> \<lparr> phase := entry_content, phaseOffset := 0 \<rparr>
      else st \<lparr> phaseOffset := ?k + n \<rparr>)"
  have rn: "readNext fs ts st m = Inr (bs, st')"
    using assms(1) i by (simp add: readNext_def Let_def n_def bs_def st'_def)
  have wf': "wfState fs (layout ts) st'"
    using i n assms(1) assms(2) by (auto simp: st'_def wfState_def handleOk_def)
  have "restBytes fs (layout ts) st' =
           drop (?k + n) (header ?e)
           @ sourceBytes fs (TarLayoutEntry.source ?e)
           @ replicate (paddingSize ?e) 0
           @ archiveBytes fs (drop (Suc (entryIndex st)) (layout ts))"
  proof (cases "?k + n \<ge> 512")
    case True
    then have "phase st' = entry_content" "entryIndex st' = entryIndex st" "phaseOffset st' = 0"
      by (simp_all add: st'_def)
    with rest_content [where st = st' and fs = fs and lay = "layout ts"] assms(3) True len show ?thesis by simp
  next
    case False
    then have "phase st' = entry_header" "entryIndex st' = entryIndex st"
      "phaseOffset st' = ?k + n"
      using assms(1) by (simp_all add: st'_def)
    with rest_header [where st = st' and fs = fs and lay = "layout ts"] assms(3) n show ?thesis by simp
  qed
  with split rest_header [OF assms(1) assms(3)] k
  have "bs @ restBytes fs (layout ts) st' = restBytes fs (layout ts) st" by simp
  with rn wf' sl n ne show ?thesis by auto
qed

lemma readNext_padding:
  assumes "phase st = entry_padding" "wfState fs (layout ts) st"
    "wfEntry fs (layout ts ! entryIndex st)"
  shows "\<exists>bs st'. readNext fs ts st m = Inr (bs, st') \<and> wfState fs (layout ts) st'
           \<and> bs @ restBytes fs (layout ts) st' = restBytes fs (layout ts) st
           \<and> length bs \<le> max 1 m
           \<and> (bs = [] \<longrightarrow> slack (layout ts) st' < slack (layout ts) st)"
proof -
  let ?e = "layout ts ! entryIndex st"
  let ?k = "phaseOffset st"
  from assms have i: "entryIndex st < length (layout ts)" and k: "?k \<le> paddingSize ?e"
    by (simp_all add: wfState_def)
  show ?thesis
  proof (cases "paddingSize ?e - ?k \<le> 0")
    case True
    then have rn: "readNext fs ts st m = Inr ([], nextEntry ts st)"
      using assms(1) i by (simp add: readNext_def Let_def)
    have "slack (layout ts) st = 1" using True assms(1) by (simp add: slack_def)
    with rn True i wf_nextEntry [of fs ts st] rest_nextEntry [OF i, of fs]
      rest_padding [OF assms(1) assms(3)] slack_nextEntry [of ts st]
    show ?thesis by simp
  next
    case False
    define n where "n = min (max 1 m) (paddingSize ?e - ?k)"
    have n: "1 \<le> n" "?k + n \<le> paddingSize ?e" "n \<le> max 1 m"
      using False by (auto simp: n_def)
    define st1 where "st1 = st \<lparr> phaseOffset := ?k + n \<rparr>"
    define st' where "st' = (if ?k + n \<ge> paddingSize ?e then nextEntry ts st1 else st1)"
    have rn: "readNext fs ts st m = Inr (replicate n 0, st')"
      using assms(1) i False by (simp add: readNext_def Let_def n_def st'_def st1_def)
    have i1: "entryIndex st1 < length (layout ts)" "entryIndex st1 = entryIndex st"
      using i by (simp_all add: st1_def)
    have wf': "wfState fs (layout ts) st'"
      using i n assms(1) wf_nextEntry [of fs ts st1]
      by (auto simp: st'_def) (simp add: st1_def wfState_def)
    have "restBytes fs (layout ts) st' =
           replicate (paddingSize ?e - (?k + n)) 0
           @ archiveBytes fs (drop (Suc (entryIndex st)) (layout ts))"
    proof (cases "?k + n \<ge> paddingSize ?e")
      case True
      with rest_nextEntry [OF i1(1), of fs] i1(2) show ?thesis by (simp add: st'_def)
    next
      case False
      then have "phase st' = entry_padding" "entryIndex st' = entryIndex st"
        "phaseOffset st' = ?k + n"
        using assms(1) by (simp_all add: st'_def st1_def)
      with rest_padding [where st = st' and fs = fs and lay = "layout ts"] assms(3) show ?thesis by simp
    qed
    moreover have "replicate (paddingSize ?e - ?k) (0::byte)
        = replicate n 0 @ replicate (paddingSize ?e - (?k + n)) 0"
      using n by (simp add: replicate_add [symmetric] del: replicate_add)
    ultimately have "replicate n 0 @ restBytes fs (layout ts) st' = restBytes fs (layout ts) st"
      using rest_padding [OF assms(1) assms(3)] by simp
    with rn wf' n show ?thesis by auto
  qed
qed

lemma rest_toPadding:
  assumes "phase st1 = entry_padding" "phaseOffset st1 = 0" "entryIndex st1 = i"
    "wfEntry fs (lay ! i)"
  shows "restBytes fs lay st1
           = replicate (paddingSize (lay ! i)) 0 @ archiveBytes fs (drop (Suc i) lay)"
  using rest_padding [where st = st1 and fs = fs and lay = lay] assms by simp

lemma readNext_content:
  assumes ph: "phase st = entry_content" and wfs: "wfState fs (layout ts) st"
    and wfe: "wfEntry fs (layout ts ! entryIndex st)"
  shows "\<exists>bs st'. readNext fs ts st m = Inr (bs, st') \<and> wfState fs (layout ts) st'
           \<and> bs @ restBytes fs (layout ts) st' = restBytes fs (layout ts) st
           \<and> length bs \<le> max 1 m
           \<and> (bs = [] \<longrightarrow> slack (layout ts) st' < slack (layout ts) st)"
proof -
  let ?e = "layout ts ! entryIndex st"
  let ?k = "phaseOffset st"
  let ?src = "sourceBytes fs (TarLayoutEntry.source ?e)"
  let ?arch = "archiveBytes fs (drop (Suc (entryIndex st)) (layout ts))"
  from wfs ph have i: "entryIndex st < length (layout ts)" and k: "?k \<le> contentSize ?e"
    and hok: "handleOk fs ?e st"
    by (simp_all add: wfState_def)
  note len = wfEntry_lengths [OF wfe]
  note rest = rest_content [OF ph wfe k]
  show ?thesis
  proof (cases "contentSize ?e - ?k \<le> 0")
    case True
    with k have keq: "?k = contentSize ?e" by simp
    define st' where "st' = closeFileHandle (toPadding st)"
    have rn: "readNext fs ts st m = Inr ([], st')"
      using ph i True by (simp add: readNext_def Let_def st'_def)
    have st': "phase st' = entry_padding" "phaseOffset st' = 0" "entryIndex st' = entryIndex st"
      by (simp_all add: st'_def closeFileHandle_def toPadding_def)
    have wf': "wfState fs (layout ts) st'" using st' i by (simp add: wfState_def)
    have "slack (layout ts) st = 2" using ph True by (simp add: slack_def)
    moreover have "slack (layout ts) st' \<le> 1" using st' by (simp add: slack_def)
    moreover have "restBytes fs (layout ts) st' = restBytes fs (layout ts) st"
      using rest_toPadding [OF st' wfe] rest keq len by simp
    ultimately show ?thesis using rn wf' by simp
  next
    case False
    define n where "n = min (max 1 m) (contentSize ?e - ?k)"
    have n: "1 \<le> n" "?k + n \<le> contentSize ?e" "n \<le> max 1 m"
      using False by (auto simp: n_def)
    define bs where "bs = subarray ?src ?k (?k + n)"
    have sl: "length bs = n" using n len by (simp add: bs_def subarray_length)
    then have ne: "bs \<noteq> []" using n by auto
    have split: "drop ?k ?src = bs @ drop (?k + n) ?src"
      unfolding bs_def by (rule subarray_split)
    have "\<exists>st'. readNext fs ts st m = Inr (bs, st') \<and> entryIndex st' = entryIndex st
             \<and> (if ?k + n \<ge> contentSize ?e
                 then phase st' = entry_padding \<and> phaseOffset st' = 0
                 else phase st' = entry_content \<and> phaseOffset st' = ?k + n
                      \<and> handleOk fs ?e st')"
    proof (cases "TarLayoutEntry.source ?e")
      case (BufferSource b)
      then have "?src = b" by (simp add: sourceBytes_def)
      with BufferSource ph i False hok show ?thesis
        by (simp add: readNext_def Let_def n_def bs_def toPadding_def handleOk_def)
    next
      case (FileSource path sz)
      from wfe FileSource obtain c where c: "fs path = Some c" "length c = contentSize ?e"
        by (auto simp: wfEntry_def fileReadable_def sourceContentSize_def
                 split: option.splits)
      with FileSource have src: "?src = c" by (simp add: sourceBytes_def)
      have h: "(case fileHandle st of Some h \<Rightarrow> Some h | None \<Rightarrow> fs path) = Some c"
        using hok src c by (simp add: handleOk_def split: option.splits)
      have br: "min n (length c - ?k) = n" using n c by simp
      have "min (max (Suc 0) m) (contentSize ?e - ?k) \<noteq> 0" using False by simp
      then show ?thesis
        using FileSource ph i False h src c(2)
        by (simp add: readNext_def Let_def n_def bs_def toPadding_def
              closeFileHandle_def handleOk_def)
    qed
    then obtain st' where rn: "readNext fs ts st m = Inr (bs, st')"
      and i': "entryIndex st' = entryIndex st"
      and st': "if ?k + n \<ge> contentSize ?e
                 then phase st' = entry_padding \<and> phaseOffset st' = 0
                 else phase st' = entry_content \<and> phaseOffset st' = ?k + n
                      \<and> handleOk fs ?e st'"
      by blast
    have wf': "wfState fs (layout ts) st'"
      using st' i i' n by (auto simp: wfState_def split: if_splits)
    have "restBytes fs (layout ts) st' =
            drop (?k + n) ?src @ replicate (paddingSize ?e) 0 @ ?arch"
    proof (cases "?k + n \<ge> contentSize ?e")
      case True
      with st' have "phase st' = entry_padding" "phaseOffset st' = 0" by simp_all
      from rest_toPadding [OF this i'] wfe True len show ?thesis by simp
    next
      case False
      with st' have p: "phase st' = entry_content" "phaseOffset st' = ?k + n" by simp_all
      with rest_content [where st = st' and fs = fs and lay = "layout ts"] i' wfe n
      show ?thesis by simp
    qed
    with split rest have "bs @ restBytes fs (layout ts) st' = restBytes fs (layout ts) st"
      by simp
    with rn wf' sl n ne show ?thesis by auto
  qed
qed

lemma readNext_step:
  assumes wfl: "list_all (wfEntry fs) (layout ts)" and wfs: "wfState fs (layout ts) st"
  shows "\<exists>bs st'. readNext fs ts st m = Inr (bs, st') \<and> wfState fs (layout ts) st'
           \<and> bs @ restBytes fs (layout ts) st' = restBytes fs (layout ts) st
           \<and> length bs \<le> max 1 m
           \<and> (bs = [] \<longrightarrow> restBytes fs (layout ts) st = []
                          \<or> slack (layout ts) st' < slack (layout ts) st)"
proof (cases "phase st")
  case eof
  from readNext_eof [OF this wfs, of m] show ?thesis by blast
next
  case entry_header
  with wfs wfl have "wfEntry fs (layout ts ! entryIndex st)"
    by (simp add: wfState_def list_all_length)
  from readNext_header [OF entry_header wfs this, of m] show ?thesis by blast
next
  case entry_content
  with wfs wfl have "wfEntry fs (layout ts ! entryIndex st)"
    by (simp add: wfState_def list_all_length)
  from readNext_content [OF entry_content wfs this, of m] show ?thesis by blast
next
  case entry_padding
  with wfs wfl have "wfEntry fs (layout ts ! entryIndex st)"
    by (simp add: wfState_def list_all_length)
  from readNext_padding [OF entry_padding wfs this, of m] show ?thesis by blast
qed

lemma readParts_correct:
  "list_all (wfEntry fs) (layout ts) \<Longrightarrow>
         wfState fs (layout ts) st \<Longrightarrow>
         remaining \<le> length (restBytes fs (layout ts) st) \<Longrightarrow>
         e + slack (layout ts) st \<le> 50 \<Longrightarrow>
         \<exists>new st'. readParts fs ts st remaining e parts position
                      = Inr (parts @ new, st', position + remaining)
           \<and> concat new = take remaining (restBytes fs (layout ts) st)
           \<and> restBytes fs (layout ts) st' = drop remaining (restBytes fs (layout ts) st)
           \<and> wfState fs (layout ts) st'"
proof (induction fs ts st remaining e parts position rule: readParts.induct)
  case (1 fs ts st remaining e parts position)
  note wfl = "1.prems"(1)
  show ?case
  proof (cases "remaining > 0")
    case False
    with "1.prems" show ?thesis by (simp add: readParts.simps)
  next
    case True
    from readNext_step [OF wfl "1.prems"(2), of remaining]
    obtain bs st1 where rn: "readNext fs ts st remaining = Inr (bs, st1)"
      and wf1: "wfState fs (layout ts) st1"
      and app: "bs @ restBytes fs (layout ts) st1 = restBytes fs (layout ts) st"
      and len: "length bs \<le> max 1 remaining"
      and emp: "bs = [] \<longrightarrow> restBytes fs (layout ts) st = []
                   \<or> slack (layout ts) st1 < slack (layout ts) st"
      by blast
    from True "1.prems"(3) have nonnil: "restBytes fs (layout ts) st \<noteq> []" by auto
    show ?thesis
    proof (cases "length bs \<le> 0")
      case empty: True
      then have bs: "bs = []" by simp
      with emp nonnil have sl: "slack (layout ts) st1 < slack (layout ts) st" by simp
      with "1.prems"(4) have e: "\<not> e + 1 > 50" "e + 1 + slack (layout ts) st1 \<le> 50"
        by simp_all
      from app bs have same: "restBytes fs (layout ts) st1 = restBytes fs (layout ts) st"
        by simp
      from "1.IH"(1) [OF True rn refl empty e(1) wfl wf1] "1.prems"(3) e(2) same
      obtain new st' where
        "readParts fs ts st1 remaining (e + 1) parts position
           = Inr (parts @ new, st', position + remaining)"
        "concat new = take remaining (restBytes fs (layout ts) st)"
        "restBytes fs (layout ts) st' = drop remaining (restBytes fs (layout ts) st)"
        "wfState fs (layout ts) st'"
        by auto
      moreover have "readParts fs ts st remaining e parts position
            = readParts fs ts st1 remaining (e + 1) parts position"
        using True rn empty e(1) by (subst readParts.simps) simp
      ultimately show ?thesis by auto
    next
      case nonempty: False
      from len True have len': "length bs \<le> remaining" by simp
      from slack_le [of "layout ts" st1] have sl: "0 + slack (layout ts) st1 \<le> 50" by simp
      from app have rest1: "restBytes fs (layout ts) st1
          = drop (length bs) (restBytes fs (layout ts) st)"
        by (metis append_eq_conv_conj)
      with "1.prems"(3) have rem1: "remaining - length bs \<le> length (restBytes fs (layout ts) st1)"
        by simp
      from "1.IH"(2) [OF True rn refl nonempty wfl wf1 rem1 sl]
      obtain new st' where
        rp: "readParts fs ts st1 (remaining - length bs) 0 (parts @ [bs]) (position + length bs)
           = Inr ((parts @ [bs]) @ new, st', position + length bs + (remaining - length bs))"
        and cc: "concat new = take (remaining - length bs) (restBytes fs (layout ts) st1)"
        and rr: "restBytes fs (layout ts) st'
                   = drop (remaining - length bs) (restBytes fs (layout ts) st1)"
        and wf': "wfState fs (layout ts) st'"
        by auto
      have step: "readParts fs ts st remaining e parts position
            = readParts fs ts st1 (remaining - length bs) 0 (parts @ [bs])
                (position + length bs)"
        using True rn nonempty by (subst readParts.simps) simp
      have "concat (bs # new) = take remaining (restBytes fs (layout ts) st)"
      proof -
        have "take remaining (bs @ restBytes fs (layout ts) st1)
            = bs @ take (remaining - length bs) (restBytes fs (layout ts) st1)"
          using len' by simp
        with cc app show ?thesis by simp
      qed
      moreover have "restBytes fs (layout ts) st'
           = drop remaining (restBytes fs (layout ts) st)"
        using rr rest1 len' by simp
      ultimately show ?thesis using step rp wf' len'
        by (intro exI [of _ "bs # new"] exI [of _ st']) simp
    qed
  qed
qed

text \<open>A normalised chunk size that lets the loop read: a whole number from 1 on, or
  \<open>Infinity\<close>; and the chunk lengths it allows.\<close>

definition usableChunk :: "jsnumber \<Rightarrow> bool" where
  "usableChunk c =
     (case c of Finite r \<Rightarrow> 1 \<le> \<lfloor>r\<rfloor> | PosInfinity \<Rightarrow> True | NaN \<Rightarrow> False
      | NegInfinity \<Rightarrow> False)"

definition chunkLimit :: "jsnumber \<Rightarrow> nat \<Rightarrow> bool" where
  "chunkLimit c n =
     (case c of Finite r \<Rightarrow> n \<le> nat \<lfloor>r\<rfloor> | PosInfinity \<Rightarrow> True | NaN \<Rightarrow> False
      | NegInfinity \<Rightarrow> False)"

lemma one_le_nat_floor:
  assumes "1 \<le> (r::real)"
  shows "Suc 0 \<le> nat \<lfloor>r\<rfloor>"
proof -
  from assms have "1 \<le> \<lfloor>r\<rfloor>" by (simp add: le_floor_iff)
  then show ?thesis by linarith
qed

lemma desiredBytes_usable:
  assumes "usableChunk c" "1 \<le> remainingTar"
  shows "\<exists>desired. desiredBytes c remainingTar = Some desired \<and> 1 \<le> desired
           \<and> desired \<le> remainingTar \<and> chunkLimit c desired"
  using assms
  by (cases c) (auto simp: usableChunk_def desiredBytes_def chunkLimit_def one_le_nat_floor)

lemma iterateLoop_correct:
  "list_all (wfEntry fs) (layout ts) \<Longrightarrow>
         wfState fs (layout ts) st \<Longrightarrow>
         position + length (restBytes fs (layout ts) st) = totalSizeBytes ts \<Longrightarrow>
         usableChunk chunk \<Longrightarrow>
         \<exists>chunks. iterateLoop fs ts st position chunk = (chunks, None)
           \<and> concat chunks = restBytes fs (layout ts) st
           \<and> list_all (\<lambda>c. 1 \<le> length c \<and> chunkLimit chunk (length c)) chunks"
proof (induction fs ts st position chunk rule: iterateLoop.induct)
  case (1 fs ts st position chunk)
  note wfl = "1.prems"(1)
  let ?rest = "restBytes fs (layout ts) st"
  show ?case
  proof (cases "position < totalSizeBytes ts")
    case False
    with "1.prems"(3) have "length ?rest = 0" by arith
    with False show ?thesis by (simp add: iterateLoop.simps)
  next
    case True
    then have "1 \<le> totalSizeBytes ts - position" by simp
    from desiredBytes_usable [OF "1.prems"(4) this] obtain desired where
      db: "desiredBytes chunk (totalSizeBytes ts - position) = Some desired"
      and d1: "1 \<le> desired" and d2: "desired \<le> totalSizeBytes ts - position"
      and d3: "chunkLimit chunk desired"
      by blast
    from d2 "1.prems"(3) have d: "desired \<le> length ?rest" by simp
    from slack_le [of "layout ts" st] have "0 + slack (layout ts) st \<le> 50" by simp
    from readParts_correct [OF wfl "1.prems"(2) d this, of "[]" position]
    obtain new st' where
      rp: "readParts fs ts st desired 0 [] position = Inr (new, st', position + desired)"
      and cc: "concat new = take desired ?rest"
      and rr: "restBytes fs (layout ts) st' = drop desired ?rest"
      and wf': "wfState fs (layout ts) st'"
      by auto
    from cc d have lc: "length (concat new) = desired" by simp
    with d1 have ne: "length new \<noteq> 0" by auto
    have pos': "position + desired + length (restBytes fs (layout ts) st') = totalSizeBytes ts"
      using rr d "1.prems"(3) by simp
    from "1.IH" [OF True refl db rp refl refl ne wfl wf' pos' "1.prems"(4)]
    obtain chunks where
      il: "iterateLoop fs ts st' (position + desired) chunk = (chunks, None)"
      and c2: "concat chunks = restBytes fs (layout ts) st'"
      and c3: "list_all (\<lambda>c. 1 \<le> length c \<and> chunkLimit chunk (length c)) chunks"
      by auto
    have "iterateLoop fs ts st position chunk = (concat new # chunks, None)"
      using True rp ne il db by (subst iterateLoop.simps) (simp add: Let_def)
    moreover have "concat (concat new # chunks) = ?rest"
      using cc c2 rr by simp
    ultimately show ?thesis using c3 lc d1 d3 by auto
  qed
qed

lemma iterateLoop_NaN: "iterateLoop fs ts st position NaN = ([], None)"
  by (subst iterateLoop.simps) (simp add: desiredBytes_def Let_def)

lemma archiveBytes_Cons:
  "archiveBytes fs (e # rest) = entryBytes fs e @ archiveBytes fs rest"
  by (simp add: archiveBytes_def)

lemma archiveBytes_length:
  "list_all (wfEntry fs) lay \<Longrightarrow>
     length (archiveBytes fs lay) = sum_list (map totalSize lay) + 1024"
  by (induction lay) (simp_all add: archiveBytes_def entryBytes_length)

lemma seekLoop_correct:
  "lay = pre @ rest \<Longrightarrow> i = length pre \<Longrightarrow> list_all (wfEntry fs) lay \<Longrightarrow>
   cursor \<le> offset \<Longrightarrow> offset - cursor < length (archiveBytes fs rest) \<Longrightarrow>
     wfState fs lay (seekLoop rest offset i cursor)
     \<and> restBytes fs lay (seekLoop rest offset i cursor)
         = drop (offset - cursor) (archiveBytes fs rest)"
proof (induction rest arbitrary: pre i cursor)
  case Nil
  then show ?case
    by (simp add: wfState_def restBytes_def archiveBytes_def)
next
  case (Cons entry rest)
  from Cons.prems have nth: "lay ! i = entry" and dr: "drop (Suc i) lay = rest"
    and i: "i < length lay" and wfe: "wfEntry fs entry"
    by simp_all
  note len = wfEntry_lengths [OF wfe] entryBytes_length [OF wfe]
  from wfe have tot: "totalSize entry = 512 + contentSize entry + paddingSize entry"
    by (simp add: wfEntry_def)
  let ?rel = "offset - cursor"
  show ?case
  proof (cases "offset < cursor + totalSize entry")
    case True
    then have rel: "?rel < totalSize entry" using Cons.prems(4) by simp
    have d: "drop ?rel (archiveBytes fs (entry # rest))
        = drop ?rel (entryBytes fs entry) @ archiveBytes fs rest"
      using rel len by (simp add: archiveBytes_Cons)
    show ?thesis
    proof (cases "?rel < 512")
      case h: True
      with True i nth dr d show ?thesis
        by (simp add: Let_def wfState_def restBytes_def stateOffset_def)
    next
      case nh: False
      show ?thesis
      proof (cases "?rel - 512 < contentSize entry")
        case c: True
        with True nh i nth dr d show ?thesis
          by (simp add: Let_def wfState_def restBytes_def stateOffset_def handleOk_def)
      next
        case nc: False
        with True nh i nth dr d rel tot show ?thesis
          by (simp add: Let_def wfState_def restBytes_def stateOffset_def)
      qed
    qed
  next
    case False
    then have ge: "cursor + totalSize entry \<le> offset" by simp
    have lay': "lay = (pre @ [entry]) @ rest" using Cons.prems(1) by simp
    have i': "i + 1 = length (pre @ [entry])" using Cons.prems(2) by simp
    have lt: "offset - (cursor + totalSize entry) < length (archiveBytes fs rest)"
      using Cons.prems(5) ge len by (simp add: archiveBytes_Cons)
    have "drop ?rel (archiveBytes fs (entry # rest))
        = drop (offset - (cursor + totalSize entry)) (archiveBytes fs rest)"
      using ge len by (simp add: archiveBytes_Cons)
    with Cons.IH [OF lay' i' Cons.prems(3) ge lt] False show ?thesis
      by (simp add: Let_def)
  qed
qed

lemma seek_correct:
  assumes "list_all (wfEntry fs) (layout ts)" "offset < length (archiveBytes fs (layout ts))"
  shows "wfState fs (layout ts) (seek ts offset)"
    and "restBytes fs (layout ts) (seek ts offset) = drop offset (archiveBytes fs (layout ts))"
  using seekLoop_correct [of "layout ts" "[]" "layout ts" 0 fs 0 offset] assms
  by (simp_all add: seek_def)

text \<open>The index at which a start offset other than \<open>NaN\<close> and \<open>Infinity\<close> begins.\<close>

definition startIndex :: "jsnumber \<Rightarrow> nat" where
  "startIndex x = (case x of Finite s \<Rightarrow> nat (max 0 \<lfloor>s\<rfloor>) | _ \<Rightarrow> 0)"

lemma normalizedStart_cases:
  "mathMax 0 (mathFloor (Finite s)) = Finite (of_int (max 0 \<lfloor>s\<rfloor>))"
  "mathMax 0 (mathFloor NegInfinity) = Finite 0"
  "mathMax 0 (mathFloor PosInfinity) = PosInfinity"
  "mathMax 0 (mathFloor NaN) = NaN"
  by (simp_all add: mathMax_def mathFloor_def)

lemma normalizedChunk_cases:
  "mathMax 1 (mathFloor (Finite c)) = Finite (of_int (max 1 \<lfloor>c\<rfloor>))"
  "mathMax 1 (mathFloor NegInfinity) = Finite 1"
  "mathMax 1 (mathFloor PosInfinity) = PosInfinity"
  "mathMax 1 (mathFloor NaN) = NaN"
  by (simp_all add: mathMax_def mathFloor_def)

lemma normalizedChunk_usable:
  "chunkSize \<noteq> NaN \<Longrightarrow> usableChunk (mathMax 1 (mathFloor chunkSize))"
  by (cases chunkSize) (simp_all add: normalizedChunk_cases usableChunk_def)

lemma iterateChunks_correct:
  assumes wfl: "list_all (wfEntry fs) (layout ts)"
    and tot: "totalSizeBytes ts = length (archiveBytes fs (layout ts))"
    and start: "startOffset \<noteq> NaN" "startOffset \<noteq> PosInfinity"
    and chunk: "chunkSize \<noteq> NaN"
  shows "\<exists>chunks. iterateChunks fs ts startOffset chunkSize = (chunks, None)
           \<and> concat chunks = drop (startIndex startOffset) (archiveBytes fs (layout ts))
           \<and> list_all (\<lambda>c. 1 \<le> length c
                           \<and> chunkLimit (mathMax 1 (mathFloor chunkSize)) (length c)) chunks"
proof -
  let ?s = "startIndex startOffset"
  from start have ns: "mathMax 0 (mathFloor startOffset) = Finite (of_int (int ?s))"
    by (cases startOffset) (simp_all add: normalizedStart_cases startIndex_def)
  have ic: "iterateChunks fs ts startOffset chunkSize
      = (if ?s \<ge> totalSizeBytes ts then ([], None)
         else iterateLoop fs ts (seek ts ?s) ?s (mathMax 1 (mathFloor chunkSize)))"
    by (simp add: iterateChunks_def ns Let_def)
  show ?thesis
  proof (cases "?s \<ge> totalSizeBytes ts")
    case True
    with tot ic show ?thesis by simp
  next
    case False
    from False tot have lt: "?s < length (archiveBytes fs (layout ts))" by simp
    note sk = seek_correct [OF wfl lt]
    have pos: "?s + length (restBytes fs (layout ts) (seek ts ?s)) = totalSizeBytes ts"
      using sk(2) lt tot by simp
    from iterateLoop_correct [OF wfl sk(1) pos normalizedChunk_usable [OF chunk]] False sk(2) ic
    show ?thesis by simp
  qed
qed

lemma iterateChunks_NaN_chunk: "iterateChunks fs ts startOffset NaN = ([], None)"
  by (cases "mathMax 0 (mathFloor startOffset)")
     (simp_all add: iterateChunks_def normalizedChunk_cases iterateLoop_NaN Let_def)

lemma iterateChunks_NaN_start: "iterateChunks fs ts NaN chunkSize = ([], None)"
  by (simp add: iterateChunks_def normalizedStart_cases)

lemma iterateChunks_infinite_start: "iterateChunks fs ts PosInfinity chunkSize = ([], None)"
  by (simp add: iterateChunks_def normalizedStart_cases)

section \<open>The layout built by the constructor\<close>

lemma buffer_copy_length [simp]:
  "length (buffer_copy src target targetStart sourceEnd) = length target"
  by (auto simp: buffer_copy_def Let_def)

lemma writeString_length [simp]: "length (writeString buf offset len v) = length buf"
  by (simp add: writeString_def Let_def)

lemma writeOctal_length [simp]: "length (writeOctal buf offset len v) = length buf"
  by (simp add: writeOctal_def Let_def)

lemma buffer_fill_length [simp]: "length (buffer_fill buf v start end') = length buf"
  by (auto simp: buffer_fill_def)

lemma writeChecksum_length [simp]: "length (writeChecksum buf checksum) = length buf"
  by (simp add: writeChecksum_def Let_def)

lemma buildUstarHeader_length: "length (buildUstarHeader nm sizeBytes mtime) = 512"
  by (simp add: buildUstarHeader_def Let_def)

definition validEntries :: "filesystem \<Rightarrow> TarEntry list \<Rightarrow> bool" where
  "validEntries fs entries =
     list_all (\<lambda>e. isSafeTarName (TarEntry.name e) \<and> fileReadable fs (TarEntry.source e))
       entries"

definition entrySize :: "TarEntry \<Rightarrow> nat" where
  "entrySize entry =
     512 + sourceContentSize (TarEntry.source entry)
     + computePaddingSize (sourceContentSize (TarEntry.source entry))"

definition layoutOf :: "TarEntry \<Rightarrow> TarLayoutEntry \<Rightarrow> bool" where
  "layoutOf entry l =
     (TarLayoutEntry.name l = TarEntry.name entry
      \<and> TarLayoutEntry.source l = TarEntry.source entry
      \<and> header l = buildUstarHeader (TarEntry.name entry)
                     (sourceContentSize (TarEntry.source entry)) (mtimeSeconds entry)
      \<and> contentSize l = sourceContentSize (TarEntry.source entry)
      \<and> paddingSize l = computePaddingSize (sourceContentSize (TarEntry.source entry))
      \<and> totalSize l = entrySize entry)"

lemma computeTarSizeBytes_sum:
  "computeTarSizeBytes entries = sum_list (map entrySize entries) + 1024"
proof -
  have "foldl (\<lambda>total entry.
              (let contentSize = sourceContentSize (TarEntry.source entry)
               in total + 512 + contentSize + computePaddingSize contentSize)) a entries
        = a + sum_list (map entrySize entries)" for a
    by (induction entries arbitrary: a) (simp_all add: entrySize_def Let_def)
  then show ?thesis by (simp add: computeTarSizeBytes_def)
qed

lemma buildLayout_ok:
  "list_all (\<lambda>e. isSafeTarName (TarEntry.name e)) entries \<Longrightarrow>
     \<exists>lay. buildLayout entries acc cur = Inr (acc @ lay, cur + sum_list (map entrySize entries))
       \<and> list_all2 layoutOf entries lay"
proof (induction entries arbitrary: acc cur)
  case Nil
  then show ?case by simp
next
  case (Cons entry rest)
  let ?l = "\<lparr> TarLayoutEntry.name = TarEntry.name entry,
      header = buildUstarHeader (TarEntry.name entry)
                 (sourceContentSize (TarEntry.source entry)) (mtimeSeconds entry),
      TarLayoutEntry.source = TarEntry.source entry,
      headerStart = cur, contentStart = cur + 512,
      contentSize = sourceContentSize (TarEntry.source entry),
      paddingSize = computePaddingSize (sourceContentSize (TarEntry.source entry)),
      totalSize = entrySize entry \<rparr>"
  from Cons.prems have safe: "isSafeTarName (TarEntry.name entry)"
    and rest: "list_all (\<lambda>e. isSafeTarName (TarEntry.name e)) rest"
    by simp_all
  from Cons.IH [OF rest, of "acc @ [?l]" "cur + entrySize entry"]
  obtain lay where
    bl: "buildLayout rest (acc @ [?l]) (cur + entrySize entry)
           = Inr ((acc @ [?l]) @ lay, cur + entrySize entry + sum_list (map entrySize rest))"
    and l2: "list_all2 layoutOf rest lay"
    by blast
  have "buildLayout (entry # rest) acc cur
          = buildLayout rest (acc @ [?l]) (cur + entrySize entry)"
    using safe by (simp add: Let_def entrySize_def)
  moreover have "layoutOf entry ?l" by (simp add: layoutOf_def)
  ultimately show ?case using bl l2
    by (intro exI [of _ "?l # lay"]) (simp add: add.assoc)
qed

lemma buildLayout_fails:
  "\<not> list_all (\<lambda>e. isSafeTarName (TarEntry.name e)) entries \<Longrightarrow>
     \<exists>nm. buildLayout entries acc cur = Inl (InvalidTarEntryName nm) \<and> \<not> isSafeTarName nm"
  by (induction entries arbitrary: acc cur) (auto simp: Let_def)

lemma layoutOf_wfEntry:
  assumes "layoutOf entry l" "fileReadable fs (TarEntry.source entry)"
  shows "wfEntry fs l"
  using assms by (simp add: layoutOf_def wfEntry_def buildUstarHeader_length entrySize_def)

lemma layoutOf_wfLayout:
  "list_all2 layoutOf entries lay \<Longrightarrow>
   list_all (\<lambda>e. fileReadable fs (TarEntry.source e)) entries \<Longrightarrow>
     list_all (wfEntry fs) lay"
  by (induction rule: list_all2_induct) (simp_all add: layoutOf_wfEntry)

lemma layoutOf_totals:
  "list_all2 layoutOf entries lay \<Longrightarrow>
     sum_list (map totalSize lay) = sum_list (map entrySize entries)"
  by (induction rule: list_all2_induct) (simp_all add: layoutOf_def)

lemma newTarStream_valid:
  assumes "validEntries fs entries"
  shows "\<exists>ts. newTarStream entries = Inr ts
           \<and> list_all2 layoutOf entries (layout ts)
           \<and> list_all (wfEntry fs) (layout ts)
           \<and> totalSizeBytes ts = sum_list (map entrySize entries) + 1024
           \<and> totalSizeBytes ts = length (archiveBytes fs (layout ts))"
proof -
  from assms have safe: "list_all (\<lambda>e. isSafeTarName (TarEntry.name e)) entries"
    and rd: "list_all (\<lambda>e. fileReadable fs (TarEntry.source e)) entries"
    by (simp_all add: validEntries_def list_all_iff)
  from buildLayout_ok [OF safe, of "[]" 0] obtain lay where
    bl: "buildLayout entries [] 0 = Inr (lay, sum_list (map entrySize entries))"
    and l2: "list_all2 layoutOf entries lay"
    by auto
  let ?ts = "\<lparr> layout = lay, totalSizeBytes = sum_list (map entrySize entries) + 1024 \<rparr>"
  have nt: "newTarStream entries = Inr ?ts" using bl by (simp add: newTarStream_def)
  have wfl: "list_all (wfEntry fs) lay" by (rule layoutOf_wfLayout [OF l2 rd])
  from archiveBytes_length [OF wfl] layoutOf_totals [OF l2]
  have "length (archiveBytes fs lay) = sum_list (map entrySize entries) + 1024" by simp
  with nt l2 wfl show ?thesis by simp
qed

lemma computePaddingSize_lt: "computePaddingSize n < 512"
  by (simp add: computePaddingSize_def Let_def)

definition exampleFiles :: filesystem where
  "exampleFiles = (\<lambda>p. if p = ''/tmp/a.bin'' then Some [104, 101, 108, 108, 111] else None)"

definition exampleEntries :: "TarEntry list" where
  "exampleEntries =
     [\<lparr> TarEntry.name = [109, 46, 106], source = BufferSource [123, 125], mtimeSeconds = 17 \<rparr>,
      \<lparr> TarEntry.name = [48, 49, 46, 98], source = FileSource ''/tmp/a.bin'' 5,
        mtimeSeconds = 17 \<rparr>]"

lemma exampleEntries_valid: "validEntries exampleFiles exampleEntries"
  by (simp add: validEntries_def exampleEntries_def exampleFiles_def fileReadable_def
        isSafeTarName_def trim_def is_js_whitespace_def safe_char_def utf8_unit_def)

lemma startIndex_nat [simp]: "startIndex (Finite (real n)) = n"
  by (simp add: startIndex_def)

lemma startIndex_zero [simp]: "startIndex (Finite 0) = 0"
  by (simp add: startIndex_def)

lemma exampleEntries_size: "computeTarSizeBytes exampleEntries = 3072"
  by (simp add: computeTarSizeBytes_def exampleEntries_def sourceContentSize_def
        computePaddingSize_def)

section \<open>Claims about the archive stream\<close>

text \<open>
  C1.  For every valid entry list, every offset and all chunk sizes, the chunks that
  \<open>iterateChunks\<close> yields when it resumes at the offset concatenate to the suffix, from
  that offset on, of the bytes yielded from offset 0; no exception ends the iteration.
  Offsets beyond the total size are covered too: both sides are empty.
\<close>

theorem C1_resume_is_suffix:
  assumes "validEntries fs entries"
  shows "\<exists>ts. newTarStream entries = Inr ts
           \<and> snd (iterateChunks fs ts (Finite (real off)) (Finite (real c))) = None
           \<and> concat (fst (iterateChunks fs ts (Finite (real off)) (Finite (real c))))
               = drop off (concat (fst (iterateChunks fs ts (Finite 0) (Finite (real c')))))"
proof -
  from newTarStream_valid [OF assms] obtain ts where ts: "newTarStream entries = Inr ts"
    and wfl: "list_all (wfEntry fs) (layout ts)"
    and tot: "totalSizeBytes ts = length (archiveBytes fs (layout ts))"
    by blast
  from iterateChunks_correct [OF wfl tot, of "Finite (real off)" "Finite (real c)"]
  have a: "snd (iterateChunks fs ts (Finite (real off)) (Finite (real c))) = None"
    and b: "concat (fst (iterateChunks fs ts (Finite (real off)) (Finite (real c))))
             = drop off (archiveBytes fs (layout ts))"
    by auto
  from iterateChunks_correct [OF wfl tot, of "Finite 0" "Finite (real c')"]
  have "concat (fst (iterateChunks fs ts (Finite 0) (Finite (real c'))))
      = archiveBytes fs (layout ts)"
    by auto
  with ts a b show ?thesis by simp
qed

theorem C1_resume_is_suffix_witness:
  "validEntries exampleFiles exampleEntries
   \<and> (\<exists>ts. newTarStream exampleEntries = Inr ts
           \<and> snd (iterateChunks exampleFiles ts (Finite (real 1034)) (Finite (real 64))) = None
           \<and> concat (fst (iterateChunks exampleFiles ts (Finite (real 1034))
                             (Finite (real 64))))
               = drop 1034 (concat (fst (iterateChunks exampleFiles ts (Finite 0)
                                           (Finite (real 128))))))"
proof (rule conjI)
  show v: "validEntries exampleFiles exampleEntries"
    by (simp add: validEntries_def exampleEntries_def exampleFiles_def fileReadable_def
          isSafeTarName_def trim_def is_js_whitespace_def safe_char_def utf8_unit_def)
  show "\<exists>ts. newTarStream exampleEntries = Inr ts
           \<and> snd (iterateChunks exampleFiles ts (Finite (real 1034)) (Finite (real 64))) = None
           \<and> concat (fst (iterateChunks exampleFiles ts (Finite (real 1034))
                             (Finite (real 64))))
               = drop 1034 (concat (fst (iterateChunks exampleFiles ts (Finite 0)
                                           (Finite (real 128)))))"
    by (rule C1_resume_is_suffix [OF v])
qed

text \<open>
  C2.  For every valid entry list whose total size is below \<open>2 ^ 53\<close>, so that every
  sum the code forms is exact, \<open>computeTarSizeBytes\<close> equals \<open>getSizeBytes\<close> of the stream
  and the number of bytes of the chunks yielded from offset 0.  \<open>computeTarSizeBytes\<close>
  has no file system argument: it reads no file content.
\<close>

theorem C2_size_agrees:
  assumes "validEntries fs entries"
    and "computeTarSizeBytes entries < 2 ^ 53"
  shows "\<exists>ts. newTarStream entries = Inr ts
           \<and> computeTarSizeBytes entries = getSizeBytes ts
           \<and> length (concat (fst (iterateChunks fs ts (Finite 0) (Finite (real c)))))
               = computeTarSizeBytes entries"
proof -
  from newTarStream_valid [OF assms(1)] obtain ts where ts: "newTarStream entries = Inr ts"
    and wfl: "list_all (wfEntry fs) (layout ts)"
    and sz: "totalSizeBytes ts = sum_list (map entrySize entries) + 1024"
    and tot: "totalSizeBytes ts = length (archiveBytes fs (layout ts))"
    by blast
  from iterateChunks_correct [OF wfl tot, of "Finite 0" "Finite (real c)"]
  have "concat (fst (iterateChunks fs ts (Finite 0) (Finite (real c))))
      = archiveBytes fs (layout ts)"
    by auto
  with ts sz tot show ?thesis
    by (simp add: computeTarSizeBytes_sum getSizeBytes_def)
qed

theorem C2_size_agrees_witness:
  "validEntries exampleFiles exampleEntries
   \<and> computeTarSizeBytes exampleEntries < 2 ^ 53
   \<and> (\<exists>ts. newTarStream exampleEntries = Inr ts
           \<and> computeTarSizeBytes exampleEntries = getSizeBytes ts
           \<and> length (concat (fst (iterateChunks exampleFiles ts (Finite 0)
                                     (Finite (real 128)))))
               = computeTarSizeBytes exampleEntries)"
proof (intro conjI)
  show v: "validEntries exampleFiles exampleEntries"
    by (simp add: validEntries_def exampleEntries_def exampleFiles_def fileReadable_def
          isSafeTarName_def trim_def is_js_whitespace_def safe_char_def utf8_unit_def)
  show b: "computeTarSizeBytes exampleEntries < 2 ^ 53"
    by (simp add: computeTarSizeBytes_def exampleEntries_def sourceContentSize_def
          computePaddingSize_def)
  show "\<exists>ts. newTarStream exampleEntries = Inr ts
           \<and> computeTarSizeBytes exampleEntries = getSizeBytes ts
           \<and> length (concat (fst (iterateChunks exampleFiles ts (Finite 0)
                                     (Finite (real 128)))))
               = computeTarSizeBytes exampleEntries"
    by (rule C2_size_agrees [OF v b])
qed









text \<open>The stream of the example entries.\<close>

definition exampleStream :: TarStream where
  "exampleStream =
     (case newTarStream exampleEntries of
        Inr ts \<Rightarrow> ts
      | Inl e \<Rightarrow> \<lparr> layout = [], totalSizeBytes = 0 \<rparr>)"

lemma exampleStream:
  "newTarStream exampleEntries = Inr exampleStream"
  "getSizeBytes exampleStream = 3072"
proof -
  from newTarStream_valid [OF exampleEntries_valid] obtain ts where
    ts: "newTarStream exampleEntries = Inr ts"
    and sz: "totalSizeBytes ts = sum_list (map entrySize exampleEntries) + 1024"
    by blast
  from ts show a: "newTarStream exampleEntries = Inr exampleStream"
    by (simp add: exampleStream_def)
  with ts have "exampleStream = ts" by simp
  with sz exampleEntries_size show "getSizeBytes exampleStream = 3072"
    by (simp add: getSizeBytes_def computeTarSizeBytes_sum)
qed

lemma normalize_idem:
  "mathMax 0 (mathFloor (mathMax 0 (mathFloor x))) = mathMax 0 (mathFloor x)"
  "mathMax 1 (mathFloor (mathMax 1 (mathFloor x))) = mathMax 1 (mathFloor x)"
proof -
  show "mathMax 0 (mathFloor (mathMax 0 (mathFloor x))) = mathMax 0 (mathFloor x)"
  proof (cases x)
    case (Finite s)
    show ?thesis unfolding Finite normalizedStart_cases floor_of_int max.left_idem ..
  next
    case NaN
    show ?thesis unfolding NaN normalizedStart_cases ..
  next
    case PosInfinity
    show ?thesis unfolding PosInfinity normalizedStart_cases ..
  next
    case NegInfinity
    have "mathMax 0 (mathFloor (Finite 0)) = Finite 0"
      by (simp add: normalizedStart_cases)
    then show ?thesis unfolding NegInfinity normalizedStart_cases .
  qed
  show "mathMax 1 (mathFloor (mathMax 1 (mathFloor x))) = mathMax 1 (mathFloor x)"
  proof (cases x)
    case (Finite s)
    show ?thesis unfolding Finite normalizedChunk_cases floor_of_int max.left_idem ..
  next
    case NaN
    show ?thesis unfolding NaN normalizedChunk_cases ..
  next
    case PosInfinity
    show ?thesis unfolding PosInfinity normalizedChunk_cases ..
  next
    case NegInfinity
    have "mathMax 1 (mathFloor (Finite 1)) = Finite 1"
      by (simp add: normalizedChunk_cases)
    then show ?thesis unfolding NegInfinity normalizedChunk_cases .
  qed
qed

lemma iterateChunks_normalized:
  "iterateChunks fs ts startOffset chunkSize
     = iterateChunks fs ts (mathMax 0 (mathFloor startOffset))
         (mathMax 1 (mathFloor chunkSize))"
  by (simp only: iterateChunks_def normalize_idem)

lemma iterateChunks_no_error:
  assumes wfl: "list_all (wfEntry fs) (layout ts)"
    and tot: "totalSizeBytes ts = length (archiveBytes fs (layout ts))"
  shows "snd (iterateChunks fs ts startOffset chunkSize) = None"
proof (cases "startOffset = NaN \<or> startOffset = PosInfinity \<or> chunkSize = NaN")
  case True
  then show ?thesis
    by (auto simp: iterateChunks_NaN_start iterateChunks_NaN_chunk
          iterateChunks_infinite_start)
next
  case False
  with iterateChunks_correct [OF wfl tot, of startOffset chunkSize] show ?thesis by auto
qed

text \<open>
  C9.  \<open>iterateChunks\<close> is a total function of its two numbers, \<open>NaN\<close> and the infinities
  included: any start offset and chunk size give the result of the start
  \<open>max 0 (floor start)\<close> and the chunk size \<open>max 1 (floor chunk)\<close>, and on a stream over
  a valid entry list no exception ends the iteration.  A start at or beyond the total
  size yields nothing, and so does \<open>NaN\<close> as start or as chunk size.  A negative start
  is the start 0, and it yields the whole archive when the chunk size is not \<open>NaN\<close>;
  a chunk size below 1 yields chunks of one byte.
\<close>

theorem C9_iterateChunks_total:
  assumes "validEntries fs entries"
  shows "\<exists>ts. newTarStream entries = Inr ts
           \<and> iterateChunks fs ts startOffset chunkSize
               = iterateChunks fs ts (mathMax 0 (mathFloor startOffset))
                   (mathMax 1 (mathFloor chunkSize))
           \<and> snd (iterateChunks fs ts startOffset chunkSize) = None
           \<and> (startOffset = NaN \<or> chunkSize = NaN \<longrightarrow>
                 iterateChunks fs ts startOffset chunkSize = ([], None))
           \<and> (jsGreaterEq startOffset (real (getSizeBytes ts)) \<longrightarrow>
                 iterateChunks fs ts startOffset chunkSize = ([], None))
           \<and> (jsLess startOffset 0 \<longrightarrow>
                 iterateChunks fs ts startOffset chunkSize
                   = iterateChunks fs ts (Finite 0) chunkSize)
           \<and> (jsLess startOffset 0 \<and> chunkSize \<noteq> NaN \<longrightarrow>
                 length (concat (fst (iterateChunks fs ts startOffset chunkSize)))
                   = getSizeBytes ts)
           \<and> (jsLess chunkSize 1 \<longrightarrow>
                 iterateChunks fs ts startOffset chunkSize
                   = iterateChunks fs ts startOffset (Finite 1)
                 \<and> list_all (\<lambda>chunk. length chunk = 1)
                      (fst (iterateChunks fs ts startOffset chunkSize)))"
proof -
  from newTarStream_valid [OF assms] obtain ts where ts: "newTarStream entries = Inr ts"
    and wfl: "list_all (wfEntry fs) (layout ts)"
    and tot: "totalSizeBytes ts = length (archiveBytes fs (layout ts))"
    by blast
  note ic = iterateChunks_correct [OF wfl tot]
  have nan: "iterateChunks fs ts startOffset chunkSize = ([], None)"
    if "startOffset = NaN \<or> chunkSize = NaN"
    using that by (auto simp: iterateChunks_NaN_start iterateChunks_NaN_chunk)
  have past: "iterateChunks fs ts startOffset chunkSize = ([], None)"
    if "jsGreaterEq startOffset (real (getSizeBytes ts))"
  proof (cases startOffset)
    case (Finite s)
    with that have "int (totalSizeBytes ts) \<le> \<lfloor>s\<rfloor>"
      by (simp add: jsGreaterEq_def getSizeBytes_def le_floor_iff)
    then have "totalSizeBytes ts \<le> nat (max 0 \<lfloor>s\<rfloor>)" by simp
    with Finite show ?thesis
      by (simp add: iterateChunks_def normalizedStart_cases Let_def)
  next
    case NaN
    with that show ?thesis by (simp add: jsGreaterEq_def)
  next
    case PosInfinity
    then show ?thesis by (simp add: iterateChunks_infinite_start)
  next
    case NegInfinity
    with that show ?thesis by (simp add: jsGreaterEq_def)
  qed
  have negstart: "mathMax 0 (mathFloor startOffset) = Finite 0 \<and> startIndex startOffset = 0
      \<and> startOffset \<noteq> NaN \<and> startOffset \<noteq> PosInfinity"
    if "jsLess startOffset 0"
  proof (cases startOffset)
    case (Finite s)
    with that have "\<lfloor>s\<rfloor> \<le> 0" by (simp add: jsLess_def floor_le_iff)
    with Finite show ?thesis by (simp add: normalizedStart_cases startIndex_def)
  qed (use that in \<open>simp_all add: jsLess_def normalizedStart_cases startIndex_def\<close>)
  have neg: "iterateChunks fs ts startOffset chunkSize
      = iterateChunks fs ts (Finite 0) chunkSize"
    if "jsLess startOffset 0"
    using negstart [OF that] by (simp add: iterateChunks_def normalizedStart_cases)
  have whole: "length (concat (fst (iterateChunks fs ts startOffset chunkSize)))
      = getSizeBytes ts"
    if "jsLess startOffset 0 \<and> chunkSize \<noteq> NaN"
  proof -
    from that negstart have s: "startIndex startOffset = 0" "startOffset \<noteq> NaN"
      "startOffset \<noteq> PosInfinity" and c: "chunkSize \<noteq> NaN"
      by simp_all
    from ic [OF s(2) s(3) c] s(1) tot show ?thesis by (auto simp: getSizeBytes_def)
  qed
  have one: "mathMax 1 (mathFloor chunkSize) = Finite 1 \<and> chunkSize \<noteq> NaN"
    if "jsLess chunkSize 1"
  proof (cases chunkSize)
    case (Finite c)
    with that have "\<lfloor>c\<rfloor> \<le> 0" by (simp add: jsLess_def floor_le_iff)
    with Finite show ?thesis by (simp add: normalizedChunk_cases)
  qed (use that in \<open>simp_all add: jsLess_def normalizedChunk_cases\<close>)
  have small1: "iterateChunks fs ts startOffset chunkSize
      = iterateChunks fs ts startOffset (Finite 1)"
    if "jsLess chunkSize 1"
    using one [OF that] by (simp add: iterateChunks_def normalizedChunk_cases)
  have small2: "list_all (\<lambda>chunk. length chunk = 1)
      (fst (iterateChunks fs ts startOffset chunkSize))"
    if "jsLess chunkSize 1"
  proof (cases "startOffset = NaN \<or> startOffset = PosInfinity")
    case True
    then show ?thesis
      by (auto simp: iterateChunks_NaN_start iterateChunks_infinite_start)
  next
    case False
    with ic [of startOffset chunkSize] one [OF that]
    have "list_all (\<lambda>chunk. 1 \<le> length chunk \<and> chunkLimit (Finite 1) (length chunk))
            (fst (iterateChunks fs ts startOffset chunkSize))"
      by auto
    then show ?thesis
      by (simp add: list_all_iff chunkLimit_def le_antisym)
  qed
  show ?thesis
  proof (intro exI [of _ ts] conjI impI)
    show "newTarStream entries = Inr ts" by (rule ts)
    show "iterateChunks fs ts startOffset chunkSize
      = iterateChunks fs ts (mathMax 0 (mathFloor startOffset))
          (mathMax 1 (mathFloor chunkSize))"
      by (rule iterateChunks_normalized)
    show "snd (iterateChunks fs ts startOffset chunkSize) = None"
      by (rule iterateChunks_no_error [OF wfl tot])
    show "iterateChunks fs ts startOffset chunkSize = ([], None)"
      if "startOffset = NaN \<or> chunkSize = NaN" using nan [OF that] .
    show "iterateChunks fs ts startOffset chunkSize = ([], None)"
      if "jsGreaterEq startOffset (real (getSizeBytes ts))" using past [OF that] .
    show "iterateChunks fs ts startOffset chunkSize = iterateChunks fs ts (Finite 0) chunkSize"
      if "jsLess startOffset 0" using neg [OF that] .
    show "length (concat (fst (iterateChunks fs ts startOffset chunkSize))) = getSizeBytes ts"
      if "jsLess startOffset 0 \<and> chunkSize \<noteq> NaN" using whole [OF that] .
    show "iterateChunks fs ts startOffset chunkSize
      = iterateChunks fs ts startOffset (Finite 1)"
      if "jsLess chunkSize 1" using small1 [OF that] .
    show "list_all (\<lambda>chunk. length chunk = 1)
      (fst (iterateChunks fs ts startOffset chunkSize))"
      if "jsLess chunkSize 1" using small2 [OF that] .
  qed
qed

theorem C9_iterateChunks_total_witness:
  "validEntries exampleFiles exampleEntries
   \<and> jsLess (Finite (- 7 / 2)) 0 \<and> Finite (- 2) \<noteq> NaN \<and> jsLess (Finite (- 2)) 1
   \<and> (\<exists>ts. newTarStream exampleEntries = Inr ts
           \<and> iterateChunks exampleFiles ts (Finite (- 7 / 2)) (Finite (- 2))
               = iterateChunks exampleFiles ts (mathMax 0 (mathFloor (Finite (- 7 / 2))))
                   (mathMax 1 (mathFloor (Finite (- 2))))
           \<and> snd (iterateChunks exampleFiles ts (Finite (- 7 / 2)) (Finite (- 2))) = None
           \<and> ((Finite (- 7 / 2)) = NaN \<or> (Finite (- 2)) = NaN \<longrightarrow>
                 iterateChunks exampleFiles ts (Finite (- 7 / 2)) (Finite (- 2)) = ([], None))
           \<and> (jsGreaterEq (Finite (- 7 / 2)) (real (getSizeBytes ts)) \<longrightarrow>
                 iterateChunks exampleFiles ts (Finite (- 7 / 2)) (Finite (- 2)) = ([], None))
           \<and> (jsLess (Finite (- 7 / 2)) 0 \<longrightarrow>
                 iterateChunks exampleFiles ts (Finite (- 7 / 2)) (Finite (- 2))
                   = iterateChunks exampleFiles ts (Finite 0) (Finite (- 2)))
           \<and> (jsLess (Finite (- 7 / 2)) 0 \<and> (Finite (- 2)) \<noteq> NaN \<longrightarrow>
                 length (concat (fst (iterateChunks exampleFiles ts (Finite (- 7 / 2)) (Finite (- 2)))))
                   = getSizeBytes ts)
           \<and> (jsLess (Finite (- 2)) 1 \<longrightarrow>
                 iterateChunks exampleFiles ts (Finite (- 7 / 2)) (Finite (- 2))
                   = iterateChunks exampleFiles ts (Finite (- 7 / 2)) (Finite 1)
                 \<and> list_all (\<lambda>chunk. length chunk = 1)
                      (fst (iterateChunks exampleFiles ts (Finite (- 7 / 2)) (Finite (- 2))))))
   \<and> (\<exists>ts. newTarStream exampleEntries = Inr ts
           \<and> iterateChunks exampleFiles ts PosInfinity NaN
               = iterateChunks exampleFiles ts (mathMax 0 (mathFloor PosInfinity))
                   (mathMax 1 (mathFloor NaN))
           \<and> snd (iterateChunks exampleFiles ts PosInfinity NaN) = None
           \<and> (PosInfinity = NaN \<or> NaN = NaN \<longrightarrow>
                 iterateChunks exampleFiles ts PosInfinity NaN = ([], None))
           \<and> (jsGreaterEq PosInfinity (real (getSizeBytes ts)) \<longrightarrow>
                 iterateChunks exampleFiles ts PosInfinity NaN = ([], None))
           \<and> (jsLess PosInfinity 0 \<longrightarrow>
                 iterateChunks exampleFiles ts PosInfinity NaN
                   = iterateChunks exampleFiles ts (Finite 0) NaN)
           \<and> (jsLess PosInfinity 0 \<and> NaN \<noteq> NaN \<longrightarrow>
                 length (concat (fst (iterateChunks exampleFiles ts PosInfinity NaN)))
                   = getSizeBytes ts)
           \<and> (jsLess NaN 1 \<longrightarrow>
                 iterateChunks exampleFiles ts PosInfinity NaN
                   = iterateChunks exampleFiles ts PosInfinity (Finite 1)
                 \<and> list_all (\<lambda>chunk. length chunk = 1)
                      (fst (iterateChunks exampleFiles ts PosInfinity NaN))))"
proof (intro conjI)
  show v: "validEntries exampleFiles exampleEntries"
    by (simp add: validEntries_def exampleEntries_def exampleFiles_def fileReadable_def
          isSafeTarName_def trim_def is_js_whitespace_def safe_char_def utf8_unit_def)
  show "jsLess (Finite (- 7 / 2)) 0" by (simp add: jsLess_def)
  show "Finite (- 2) \<noteq> NaN" by simp
  show "jsLess (Finite (- 2)) 1" by (simp add: jsLess_def)
  show "\<exists>ts. newTarStream exampleEntries = Inr ts
           \<and> iterateChunks exampleFiles ts (Finite (- 7 / 2)) (Finite (- 2))
               = iterateChunks exampleFiles ts (mathMax 0 (mathFloor (Finite (- 7 / 2))))
                   (mathMax 1 (mathFloor (Finite (- 2))))
           \<and> snd (iterateChunks exampleFiles ts (Finite (- 7 / 2)) (Finite (- 2))) = None
           \<and> ((Finite (- 7 / 2)) = NaN \<or> (Finite (- 2)) = NaN \<longrightarrow>
                 iterateChunks exampleFiles ts (Finite (- 7 / 2)) (Finite (- 2)) = ([], None))
           \<and> (jsGreaterEq (Finite (- 7 / 2)) (real (getSizeBytes ts)) \<longrightarrow>
                 iterateChunks exampleFiles ts (Finite (- 7 / 2)) (Finite (- 2)) = ([], None))
           \<and> (jsLess (Finite (- 7 / 2)) 0 \<longrightarrow>
                 iterateChunks exampleFiles ts (Finite (- 7 / 2)) (Finite (- 2))
                   = iterateChunks exampleFiles ts (Finite 0) (Finite (- 2)))
           \<and> (jsLess (Finite (- 7 / 2)) 0 \<and> (Finite (- 2)) \<noteq> NaN \<longrightarrow>
                 length (concat (fst (iterateChunks exampleFiles ts (Finite (- 7 / 2)) (Finite (- 2)))))
                   = getSizeBytes ts)
           \<and> (jsLess (Finite (- 2)) 1 \<longrightarrow>
                 iterateChunks exampleFiles ts (Finite (- 7 / 2)) (Finite (- 2))
                   = iterateChunks exampleFiles ts (Finite (- 7 / 2)) (Finite 1)
                 \<and> list_all (\<lambda>chunk. length chunk = 1)
                      (fst (iterateChunks exampleFiles ts (Finite (- 7 / 2)) (Finite (- 2)))))"
    by (rule C9_iterateChunks_total [OF v])
  show "\<exists>ts. newTarStream exampleEntries = Inr ts
           \<and> iterateChunks exampleFiles ts PosInfinity NaN
               = iterateChunks exampleFiles ts (mathMax 0 (mathFloor PosInfinity))
                   (mathMax 1 (mathFloor NaN))
           \<and> snd (iterateChunks exampleFiles ts PosInfinity NaN) = None
           \<and> (PosInfinity = NaN \<or> NaN = NaN \<longrightarrow>
                 iterateChunks exampleFiles ts PosInfinity NaN = ([], None))
           \<and> (jsGreaterEq PosInfinity (real (getSizeBytes ts)) \<longrightarrow>
                 iterateChunks exampleFiles ts PosInfinity NaN = ([], None))
           \<and> (jsLess PosInfinity 0 \<longrightarrow>
                 iterateChunks exampleFiles ts PosInfinity NaN
                   = iterateChunks exampleFiles ts (Finite 0) NaN)
           \<and> (jsLess PosInfinity 0 \<and> NaN \<noteq> NaN \<longrightarrow>
                 length (concat (fst (iterateChunks exampleFiles ts PosInfinity NaN)))
                   = getSizeBytes ts)
           \<and> (jsLess NaN 1 \<longrightarrow>
                 iterateChunks exampleFiles ts PosInfinity NaN
                   = iterateChunks exampleFiles ts PosInfinity (Finite 1)
                 \<and> list_all (\<lambda>chunk. length chunk = 1)
                      (fst (iterateChunks exampleFiles ts PosInfinity NaN)))"
    by (rule C9_iterateChunks_total [OF v])
qed

text \<open>With \<open>NaN\<close> as chunk size a negative start yields no byte of the 3072.\<close>

theorem C9_NaN_chunk_counterexample:
  "newTarStream exampleEntries = Inr exampleStream
   \<and> getSizeBytes exampleStream = 3072
   \<and> jsLess (Finite (- 1)) 0
   \<and> iterateChunks exampleFiles exampleStream (Finite (- 1)) NaN = ([], None)"
proof (intro conjI)
  show "newTarStream exampleEntries = Inr exampleStream" by (rule exampleStream(1))
  show "getSizeBytes exampleStream = 3072" by (rule exampleStream(2))
  show "jsLess (Finite (- 1)) 0" by (simp add: jsLess_def)
  show "iterateChunks exampleFiles exampleStream (Finite (- 1)) NaN = ([], None)"
    by (rule iterateChunks_NaN_chunk)
qed

section \<open>Claims about sizes and names\<close>



text \<open>The constructor fails exactly when \<open>isSafeTarName\<close> rejects some entry name.\<close>

lemma newTarStream_fails_iff:
  "(\<exists>e. newTarStream entries = Inl e)
     \<longleftrightarrow> \<not> list_all (\<lambda>entry. isSafeTarName (TarEntry.name entry)) entries"
proof (cases "list_all (\<lambda>entry. isSafeTarName (TarEntry.name entry)) entries")
  case True
  from buildLayout_ok [OF this, of "[]" 0] True show ?thesis
    by (auto simp: newTarStream_def)
next
  case False
  from buildLayout_fails [OF this, of "[]" 0] False show ?thesis
    by (auto simp: newTarStream_def)
qed

section \<open>The bytes of a header\<close>

lemma buffer_copy_nth:
  assumes "i < length target"
  shows "buffer_copy src target targetStart sourceEnd ! i
           = (if targetStart \<le> i \<and> i < targetStart + min sourceEnd (length src)
              then src ! (i - targetStart) else target ! i)"
proof -
  define piece where "piece = take (length target - targetStart) (take sourceEnd src)"
  have lp: "length piece = min (length target - targetStart) (min sourceEnd (length src))"
    by (simp add: piece_def min.commute)
  have bc: "buffer_copy src target targetStart sourceEnd
      = take targetStart target @ piece @ drop (targetStart + length piece) target"
    by (simp add: buffer_copy_def piece_def Let_def)
  show ?thesis
  proof (cases "i < targetStart")
    case True
    with assms show ?thesis by (simp add: bc nth_append)
  next
    case False
    show ?thesis
    proof (cases "i < targetStart + min sourceEnd (length src)")
      case True
      with False assms have "i - targetStart < length piece" by (auto simp: lp)
      moreover from this have "piece ! (i - targetStart) = src ! (i - targetStart)"
        by (simp add: piece_def)
      ultimately show ?thesis using False True assms by (simp add: bc nth_append)
    next
      case nt: False
      with False assms have "length piece = min sourceEnd (length src)"
        by (simp add: lp)
      with False nt assms show ?thesis by (auto simp: bc nth_append)
    qed
  qed
qed

lemma writeString_nth:
  assumes "i < length buf"
  shows "writeString buf offset len v ! i
           = (if offset \<le> i \<and> i < offset + min (length (utf8_encode v)) len
              then utf8_encode v ! (i - offset) else buf ! i)"
  using buffer_copy_nth [OF assms, of "utf8_encode v" offset "min (length (utf8_encode v)) len"]
  by (simp add: writeString_def Let_def)

lemma utf8_encode_ascii:
  "list_all (\<lambda>c. c < 128) v \<Longrightarrow> utf8_encode v = map of_nat v"
  by (induction v rule: utf8_encode.induct) (simp_all add: utf8_unit_def)

lemma toString8_digits: "list_all (\<lambda>c. 48 \<le> c \<and> c \<le> 55) (toString8 n)"
proof (induction n rule: toString8.induct)
  case (1 n)
  show ?case
  proof (cases "n < 8")
    case True
    then show ?thesis by (subst toString8.simps) simp
  next
    case False
    have "n mod 8 < 8" by simp
    then have "48 + n mod 8 \<le> 55" by linarith
    with False "1.IH" show ?thesis by (subst toString8.simps) simp
  qed
qed

lemma toString8_length_le:
  "n < 8 ^ k \<Longrightarrow> 1 \<le> k \<Longrightarrow> length (toString8 n) \<le> k"
proof (induction n arbitrary: k rule: toString8.induct)
  case (1 n)
  show ?case
  proof (cases "n < 8")
    case True
    with "1.prems" show ?thesis by (subst toString8.simps) simp
  next
    case False
    from "1.prems" obtain j where k: "k = Suc j" by (cases k) auto
    from False "1.prems" k have "1 \<le> j" by (cases j) auto
    moreover from "1.prems" k have "n div 8 < 8 ^ j"
      by (simp add: less_mult_imp_div_less mult.commute)
    ultimately have "length (toString8 (n div 8)) \<le> j" using "1.IH" False by simp
    with False k show ?thesis by (subst toString8.simps) simp
  qed
qed

lemma toString8_length_gt:
  "8 ^ k \<le> n \<Longrightarrow> k < length (toString8 n)"
proof (induction n arbitrary: k rule: toString8.induct)
  case (1 n)
  show ?case
  proof (cases "n < 8")
    case True
    have "k = 0"
    proof (cases k)
      case (Suc j)
      have "(1::nat) \<le> 8 ^ j" by simp
      moreover from Suc "1.prems" have "8 * 8 ^ j \<le> n" by simp
      ultimately show ?thesis using True by linarith
    qed
    with True show ?thesis by (subst toString8.simps) simp
  next
    case False
    show ?thesis
    proof (cases k)
      case 0
      with False show ?thesis by (subst toString8.simps) simp
    next
      case (Suc j)
      with "1.prems" have "8 ^ j \<le> n div 8"
        by (simp add: less_eq_div_iff_mult_less_eq mult.commute)
      with "1.IH" False have "j < length (toString8 (n div 8))" by simp
      with False Suc show ?thesis by (subst toString8.simps) simp
    qed
  qed
qed

text \<open>The value of a string of octal digits, as \<open>parseInt(s, 8)\<close> accumulates it.\<close>

definition octalValue :: "jsstring \<Rightarrow> nat" where
  "octalValue ds = foldl (\<lambda>acc d. acc * 8 + (d - 48)) 0 ds"

lemma octalValue_snoc: "octalValue (ds @ [d]) = octalValue ds * 8 + (d - 48)"
  by (simp add: octalValue_def)

lemma octalValue_toString8: "octalValue (toString8 n) = n"
proof (induction n rule: toString8.induct)
  case (1 n)
  show ?case
  proof (cases "n < 8")
    case True
    then show ?thesis by (subst toString8.simps) (simp add: octalValue_def)
  next
    case False
    with "1.IH" have "octalValue (toString8 (n div 8)) = n div 8" by simp
    with False show ?thesis
      by (subst toString8.simps) (simp add: octalValue_snoc)
  qed
qed

lemma octalValue_zeros: "octalValue (replicate j 48 @ ds) = octalValue ds"
proof -
  have "foldl (\<lambda>acc d. acc * 8 + (d - 48)) (0::nat) (replicate j 48) = 0"
    by (induction j) simp_all
  then show ?thesis by (simp add: octalValue_def)
qed

lemma octalValue_padStart: "octalValue (padStart k 48 (toString8 n)) = n"
  by (simp add: padStart_def octalValue_zeros octalValue_toString8)

lemma padStart_digits: "list_all (\<lambda>c. 48 \<le> c \<and> c \<le> 55) (padStart k 48 (toString8 n))"
  using toString8_digits [of n] by (auto simp: padStart_def list_all_iff)

lemma padStart_length:
  "length (padStart k c s) = max k (length s)"
  by (simp add: padStart_def)

lemma subarray_nth:
  "b \<le> length xs \<Longrightarrow> subarray xs a b = map ((!) xs) [a..<b]"
  by (auto simp: subarray_def intro!: nth_equalityI)

text \<open>The text of a numeric field, as \<open>writeOctal\<close> builds it.\<close>

definition octalField :: "nat \<Rightarrow> real \<Rightarrow> jsstring" where
  "octalField len v = padStart (len - 1) 48 (toString8 (nat (max 0 \<lfloor>v\<rfloor>))) @ [0]"

lemma octalField_ascii: "list_all (\<lambda>c. c < 128) (octalField len v)"
proof -
  have "list_all (\<lambda>c. c < 128) (padStart (len - 1) 48 (toString8 (nat (max 0 \<lfloor>v\<rfloor>))))"
    using padStart_digits [of "len - 1" "nat (max 0 \<lfloor>v\<rfloor>)"]
    by (auto simp: list_all_iff)
  then show ?thesis by (simp add: octalField_def)
qed

lemma writeOctal_nth:
  assumes "i < length buf"
  shows "writeOctal buf offset len v ! i
           = (if offset \<le> i \<and> i < offset + min (length (octalField len v)) len
              then of_nat (octalField len v ! (i - offset)) else buf ! i)"
proof -
  have w: "writeOctal buf offset len v = writeString buf offset len (octalField len v)"
    by (simp add: writeOctal_def octalField_def Let_def)
  have u: "utf8_encode (octalField len v) = map of_nat (octalField len v)"
    by (rule utf8_encode_ascii [OF octalField_ascii])
  show ?thesis
    using writeString_nth [OF assms, of offset len "octalField len v"]
    by (auto simp: w u)
qed

lemma writeOctal_frame:
  assumes "i < length buf" "i < offset \<or> offset + len \<le> i"
  shows "writeOctal buf offset len v ! i = buf ! i"
  using writeOctal_nth [OF assms(1), of offset len v] assms(2) by auto

lemma writeString_frame:
  assumes "i < length buf" "i < offset \<or> offset + len \<le> i"
  shows "writeString buf offset len v ! i = buf ! i"
  using writeString_nth [OF assms(1), of offset len v] assms(2) by auto

lemma buffer_fill_nth:
  assumes "i < length buf" "start \<le> end'" "end' \<le> length buf"
  shows "buffer_fill buf v start end' ! i = (if start \<le> i \<and> i < end' then v else buf ! i)"
  using assms by (auto simp: buffer_fill_def nth_append min_def max_def)

text \<open>The header block before the checksum is written into it.\<close>

definition headerBody :: "jsstring \<Rightarrow> nat \<Rightarrow> real \<Rightarrow> buffer" where
  "headerBody nm sizeBytes mtime =
     writeString
       (writeString
          ((buffer_fill
              (writeOctal
                 (writeOctal
                    (writeOctal
                       (writeOctal
                          (writeOctal (writeString (replicate 512 0) 0 100 nm) 100 8 420)
                          108 8 0)
                       116 8 0)
                    124 12 (real sizeBytes))
                 136 12 (of_int (max 0 \<lfloor>mtime\<rfloor>)))
              0x20 148 156)
           [156 := 0x30])
          257 6 [117, 115, 116, 97, 114, 0])
       263 2 [48, 48]"

lemma buildUstarHeader_body:
  "buildUstarHeader nm sizeBytes mtime
     = writeChecksum (headerBody nm sizeBytes mtime)
         (computeTarChecksum (headerBody nm sizeBytes mtime))"
  by (simp add: buildUstarHeader_def headerBody_def Let_def)

lemma headerBody_length [simp]: "length (headerBody nm sizeBytes mtime) = 512"
  by (simp add: headerBody_def)

lemma headerBody_checksum_field:
  assumes "148 \<le> i" "i < 156"
  shows "headerBody nm sizeBytes mtime ! i = 0x20"
  using assms
  by (simp add: headerBody_def writeString_frame buffer_fill_nth)

lemma headerBody_size_field:
  assumes "j < min (length (octalField 12 (real sizeBytes))) 12"
  shows "headerBody nm sizeBytes mtime ! (124 + j)
           = of_nat (octalField 12 (real sizeBytes) ! j)"
proof -
  let ?b1 = "writeString (replicate 512 0) 0 100 nm"
  let ?b4 = "writeOctal (writeOctal (writeOctal ?b1 100 8 420) 108 8 0) 116 8 0"
  let ?b5 = "writeOctal ?b4 124 12 (real sizeBytes)"
  from assms have j: "j < 12" by simp
  then have "headerBody nm sizeBytes mtime ! (124 + j) = ?b5 ! (124 + j)"
    by (simp add: headerBody_def writeString_frame buffer_fill_nth writeOctal_frame)
  also have "?b5 ! (124 + j) = of_nat (octalField 12 (real sizeBytes) ! j)"
    using assms j by (subst writeOctal_nth) simp_all
  finally show ?thesis .
qed

lemma headerBody_name_field:
  assumes "i < min (length (utf8_encode nm)) 100"
  shows "headerBody nm sizeBytes mtime ! i = utf8_encode nm ! i"
  using assms
  by (simp add: headerBody_def writeString_frame buffer_fill_nth writeOctal_frame
        writeString_nth [where offset = 0])

lemma computeTarChecksum_sum: "computeTarChecksum buf = sum_list (map unat buf)"
proof -
  have "foldl (\<lambda>sum b. sum + unat b) a buf = a + sum_list (map unat buf)" for a
    by (induction buf arbitrary: a) simp_all
  then show ?thesis by (simp add: computeTarChecksum_def)
qed

lemma computeTarChecksum_bound: "computeTarChecksum buf \<le> 255 * length buf"
proof -
  have "unat b \<le> 255" for b :: byte
  proof -
    have "unat b < 2 ^ LENGTH(8)" by (rule unsigned_less)
    then show ?thesis by simp
  qed
  then have "sum_list (map unat buf) \<le> 255 * length buf"
    by (induction buf) (simp_all add: add_mono)
  then show ?thesis by (simp add: computeTarChecksum_sum)
qed

section \<open>Reading a numeric field back\<close>

lemma octalDigit_not_whitespace: "octalDigit c \<Longrightarrow> \<not> is_js_whitespace c"
  by (auto simp: octalDigit_def is_js_whitespace_def)

lemma dropWhile_digits:
  assumes "list_all octalDigit ds"
  shows "dropWhile is_js_whitespace ds = ds"
  using assms by (cases ds) (simp_all add: octalDigit_not_whitespace)

lemma trim_digits:
  assumes "list_all octalDigit ds"
  shows "trim ds = ds"
proof -
  from assms have "list_all octalDigit (rev ds)" by (simp add: list_all_iff)
  then have "dropWhile is_js_whitespace (rev ds) = rev ds" by (rule dropWhile_digits)
  with dropWhile_digits [OF assms] show ?thesis by (simp add: trim_def)
qed

lemma trim_digits_space:
  assumes "list_all octalDigit ds" "ds \<noteq> []"
  shows "trim (ds @ [32]) = ds"
proof -
  from assms obtain d r where ds: "ds = d # r" by (cases ds) auto
  with assms have "\<not> is_js_whitespace d" by (simp add: octalDigit_not_whitespace)
  with ds have a: "dropWhile is_js_whitespace (ds @ [32]) = ds @ [32]" by simp
  from assms have "list_all octalDigit (rev ds)" by (simp add: list_all_iff)
  then have b: "dropWhile is_js_whitespace (rev ds) = rev ds" by (rule dropWhile_digits)
  have "is_js_whitespace 32" by (simp add: is_js_whitespace_def)
  with a b show ?thesis by (simp add: trim_def)
qed

lemma parseInt8_digits:
  assumes "list_all octalDigit ds" "ds \<noteq> []"
  shows "parseInt8 ds = Some (int (octalValue ds))"
proof -
  from assms obtain d r where ds: "ds = d # r" by (cases ds) auto
  with assms have d: "octalDigit d" by simp
  then have sign: "d \<noteq> 45" "d \<noteq> 43" by (auto simp: octalDigit_def)
  have t: "takeWhile octalDigit ds = ds" using assms(1) by (simp add: list_all_iff)
  from dropWhile_digits [OF assms(1)] ds sign t assms(2) show ?thesis
    by (simp add: parseInt8_def octalValue_def Let_def)
qed

lemma decodeAscii_of_nat:
  assumes "list_all (\<lambda>c. c < 128) v"
  shows "decodeAscii (map of_nat v) = Some v"
proof -
  have u: "unat (of_nat c :: byte) = c" if "c < 128" for c
    using that by (simp add: unat_of_nat)
  from assms have "map unat (map of_nat v :: buffer) = v"
    by (induction v) (simp_all add: u)
  moreover from assms have "list_all (\<lambda>b. unat b < 128) (map of_nat v :: buffer)"
    by (induction v) (simp_all add: u)
  ultimately show ?thesis by (simp add: decodeAscii_def)
qed

lemma digits_ascii: "list_all octalDigit ds \<Longrightarrow> list_all (\<lambda>c. c < 128) ds"
  by (auto simp: list_all_iff octalDigit_def)

lemma digits_no_nul: "list_all octalDigit ds \<Longrightarrow> filter (\<lambda>c. c \<noteq> 0) ds = ds"
  by (induction ds) (auto simp: octalDigit_def)

lemma parseOctalText_nul:
  assumes "list_all octalDigit ds" "ds \<noteq> []"
  shows "parseOctalText (map of_nat (ds @ [0])) = Some (octalValue ds)"
proof -
  from digits_ascii [OF assms(1)] have "list_all (\<lambda>c. c < 128) (ds @ [0])" by simp
  from decodeAscii_of_nat [OF this] digits_no_nul [OF assms(1)] trim_digits [OF assms(1)]
    parseInt8_digits [OF assms] assms(2)
  show ?thesis by (simp add: parseOctalText_def Let_def)
qed

lemma parseOctalText_plain:
  assumes "list_all octalDigit ds" "ds \<noteq> []"
  shows "parseOctalText (map of_nat ds) = Some (octalValue ds)"
proof -
  from decodeAscii_of_nat [OF digits_ascii [OF assms(1)]] digits_no_nul [OF assms(1)]
    trim_digits [OF assms(1)] parseInt8_digits [OF assms] assms(2)
  show ?thesis by (simp add: parseOctalText_def Let_def)
qed

lemma parseOctalText_nul_space:
  assumes "list_all octalDigit ds" "ds \<noteq> []"
  shows "parseOctalText (map of_nat (ds @ [0, 32])) = Some (octalValue ds)"
proof -
  from digits_ascii [OF assms(1)] have "list_all (\<lambda>c. c < 128) (ds @ [0, 32])" by simp
  from decodeAscii_of_nat [OF this] digits_no_nul [OF assms(1)] trim_digits_space [OF assms]
    parseInt8_digits [OF assms] assms(2)
  show ?thesis by (simp add: parseOctalText_def Let_def)
qed

section \<open>Claims about the header\<close>

lemma writeChecksum_frame:
  assumes "i < length buf" "i < 148 \<or> 156 \<le> i"
  shows "writeChecksum buf checksum ! i = buf ! i"
  using assms by (auto simp: writeChecksum_def Let_def writeString_frame)

lemma checksum_text:
  assumes "checksum < 8 ^ 6"
  shows "length (padStart 6 48 (toString8 checksum)) = 6"
    and "utf8_encode (padStart 6 48 (toString8 checksum))
           = map of_nat (padStart 6 48 (toString8 checksum))"
proof -
  from toString8_length_le [OF assms] show "length (padStart 6 48 (toString8 checksum)) = 6"
    by (simp add: padStart_length)
  have "list_all (\<lambda>c. c < 128) (padStart 6 48 (toString8 checksum))"
    using padStart_digits [of 6 checksum] by (auto simp: list_all_iff)
  then show "utf8_encode (padStart 6 48 (toString8 checksum))
           = map of_nat (padStart 6 48 (toString8 checksum))"
    by (rule utf8_encode_ascii)
qed

lemma writeChecksum_field:
  assumes "length buf = 512" "checksum < 8 ^ 6"
  shows "subarray (writeChecksum buf checksum) 148 156
           = map of_nat (padStart 6 48 (toString8 checksum)) @ [0, 0x20]"
proof -
  let ?oct = "padStart 6 48 (toString8 checksum)"
  let ?h = "writeChecksum buf checksum"
  note ct = checksum_text [OF assms(2)]
  have len: "length ?h = 512" using assms(1) by simp
  have digit: "?h ! (148 + j) = of_nat (?oct ! j)" if "j < 6" for j
    using that assms(1) ct
    by (simp add: writeChecksum_def Let_def writeString_nth)
  have nul: "?h ! 154 = 0" using assms(1) by (simp add: writeChecksum_def Let_def)
  have sp: "?h ! 155 = 0x20" using assms(1) by (simp add: writeChecksum_def Let_def)
  have "subarray ?h 148 156 = map ((!) ?h) [148..<156]"
    using len by (simp add: subarray_nth)
  also have "\<dots> = map of_nat ?oct @ [0, 0x20]"
  proof (rule nth_equalityI)
    show "length (map ((!) ?h) [148..<156]) = length (map of_nat ?oct @ [0, 0x20 :: byte])"
      using ct(1) by simp
  next
    fix i assume "i < length (map ((!) ?h) [148..<156])"
    then have i: "i < 8" by simp
    then have at: "map ((!) ?h) [148..<156] ! i = ?h ! (148 + i)"
      by (intro nth_map_upt) simp
    from i consider "i < 6" | "i = 6" | "i = 7" by linarith
    then have "?h ! (148 + i) = (map of_nat ?oct @ [0, 0x20]) ! i"
    proof cases
      case 1
      with digit [OF 1] ct(1) show ?thesis by (simp add: nth_append)
    next
      case 2
      with nul ct(1) show ?thesis by (simp add: nth_append)
    next
      case 3
      with sp ct(1) show ?thesis by (simp add: nth_append)
    qed
    with at show "map ((!) ?h) [148..<156] ! i = (map of_nat ?oct @ [0, 0x20]) ! i"
      by simp
  qed
  finally show ?thesis .
qed

lemma headerBody_checksum_lt: "computeTarChecksum (headerBody nm sizeBytes mtime) < 8 ^ 6"
  using computeTarChecksum_bound [of "headerBody nm sizeBytes mtime"] by simp

lemma header_blanked:
  "buffer_fill (buildUstarHeader nm sizeBytes mtime) 0x20 148 156
     = headerBody nm sizeBytes mtime"
proof (rule nth_equalityI)
  show "length (buffer_fill (buildUstarHeader nm sizeBytes mtime) 0x20 148 156)
          = length (headerBody nm sizeBytes mtime)"
    by (simp add: buildUstarHeader_body)
next
  fix i assume "i < length (buffer_fill (buildUstarHeader nm sizeBytes mtime) 0x20 148 156)"
  then have i: "i < 512" by (simp add: buildUstarHeader_body)
  show "buffer_fill (buildUstarHeader nm sizeBytes mtime) 0x20 148 156 ! i
          = headerBody nm sizeBytes mtime ! i"
  proof (cases "148 \<le> i \<and> i < 156")
    case True
    with i headerBody_checksum_field [of i nm sizeBytes mtime] show ?thesis
      by (simp add: buildUstarHeader_body buffer_fill_nth)
  next
    case False
    with i show ?thesis
      by (auto simp: buildUstarHeader_body buffer_fill_nth writeChecksum_frame)
  qed
qed

lemma unat_of_nat_digits:
  assumes "list_all octalDigit ds"
  shows "map unat (map of_nat ds :: buffer) = ds"
proof -
  have "unat (of_nat c :: byte) = c" if "octalDigit c" for c
    using that by (simp add: octalDigit_def unat_of_nat)
  with assms show ?thesis by (induction ds) simp_all
qed

lemma blanked_block:
  assumes "length h = 512"
  shows "take 148 h @ replicate 8 0x20 @ drop 156 h = buffer_fill h 0x20 148 156"
  using assms by (simp add: buffer_fill_def)

text \<open>
  C3.  In every header block the eight bytes at offsets 148..155 are six octal digits,
  a NUL byte and a space.  The digits are the zero-padded octal text of the sum of the
  512 bytes of the block with those eight bytes replaced by spaces: their value is
  that sum, and the reader of the test suite reads that sum from the field.
\<close>

theorem C3_checksum_field:
  fixes nm :: jsstring and sizeBytes :: nat and mtime :: real
  defines "h \<equiv> buildUstarHeader nm sizeBytes mtime"
  defines "blanked \<equiv> take 148 h @ replicate 8 0x20 @ drop 156 h"
  shows "length h = 512
   \<and> list_all octalDigit (map unat (take 6 (drop 148 h)))
   \<and> octalValue (map unat (take 6 (drop 148 h))) = sum_list (map unat blanked)
   \<and> h ! 154 = 0 \<and> h ! 155 = 0x20
   \<and> subarray h 148 156
       = map of_nat (padStart 6 48 (toString8 (sum_list (map unat blanked)))) @ [0, 0x20]
   \<and> length (toString8 (sum_list (map unat blanked))) \<le> 6
   \<and> parseOctalText (subarray h 148 156) = Some (sum_list (map unat blanked))"
proof -
  let ?body = "headerBody nm sizeBytes mtime"
  let ?sum = "computeTarChecksum ?body"
  let ?oct = "padStart 6 48 (toString8 ?sum)"
  note lt = headerBody_checksum_lt [of nm sizeBytes mtime]
  have len512: "length h = 512" by (simp add: h_def buildUstarHeader_length)
  have "blanked = buffer_fill h 0x20 148 156"
    unfolding blanked_def by (rule blanked_block [OF len512])
  also have "\<dots> = ?body"
    unfolding h_def by (rule header_blanked)
  finally have sum: "sum_list (map unat blanked) = ?sum"
    by (simp add: computeTarChecksum_sum)
  have field: "subarray h 148 156 = map of_nat ?oct @ [0, 0x20]"
    using writeChecksum_field [OF headerBody_length lt]
    by (simp add: h_def buildUstarHeader_body)
  have len: "length (toString8 ?sum) \<le> 6"
    by (rule toString8_length_le [OF lt]) simp
  have l6: "length ?oct = 6" by (rule checksum_text(1) [OF lt])
  have digits: "list_all octalDigit ?oct"
    using padStart_digits [of 6 ?sum] by (simp add: list_all_iff octalDigit_def)
  have ne: "?oct \<noteq> []" using l6 by auto
  have "take 6 (drop 148 h) = take 6 (subarray h 148 156)"
    by (simp add: subarray_def)
  also have "\<dots> = map of_nat ?oct" using l6 by (simp add: field)
  finally have six: "map unat (take 6 (drop 148 h)) = ?oct"
    by (simp only: unat_of_nat_digits [OF digits])
  have at: "h ! (148 + j) = subarray h 148 156 ! j" if "j < 8" for j
    using that len512 by (simp add: subarray_def)
  have nul: "h ! 154 = 0" using at [of 6] l6 by (simp add: field nth_append)
  have sp: "h ! 155 = 0x20" using at [of 7] l6 by (simp add: field nth_append)
  have "parseOctalText (map of_nat (?oct @ [0, 32])) = Some (octalValue ?oct)"
    by (rule parseOctalText_nul_space [OF digits ne])
  then have parse: "parseOctalText (subarray h 148 156) = Some ?sum"
    by (simp add: field octalValue_padStart)
  show ?thesis
    unfolding sum six
    by (intro conjI len512 digits octalValue_padStart nul sp field len parse)
qed

lemma toString8_power: "toString8 (8 ^ k) = 49 # replicate k 48"
proof (induction k)
  case 0
  show ?case by (subst toString8.simps) simp
next
  case (Suc k)
  have "\<not> (8::nat) ^ Suc k < 8" by simp
  then have "toString8 (8 ^ Suc k) = toString8 (8 ^ k) @ [48]"
    by (subst toString8.simps) simp
  with Suc show ?case by (simp add: replicate_append_same)
qed

lemma octalValue_power: "octalValue (49 # replicate k 48) = 8 ^ k"
proof -
  have "foldl (\<lambda>acc d. acc * 8 + (d - 48)) a (replicate k 48) = a * 8 ^ k" for a :: nat
    by (induction k arbitrary: a) simp_all
  then show ?thesis by (simp add: octalValue_def)
qed

lemma octalField_length: "12 \<le> length (octalField 12 v)"
  by (simp add: octalField_def padStart_length)

lemma header_size_field:
  "subarray (buildUstarHeader nm sizeBytes mtime) 124 136
     = map of_nat (take 12 (octalField 12 (real sizeBytes)))"
proof -
  let ?h = "buildUstarHeader nm sizeBytes mtime"
  let ?F = "octalField 12 (real sizeBytes)"
  have len: "length ?h = 512" by (rule buildUstarHeader_length)
  have nth: "?h ! (124 + j) = of_nat (?F ! j)" if "j < 12" for j
  proof -
    from that octalField_length [of "real sizeBytes"]
    have "j < min (length ?F) 12" by simp
    from headerBody_size_field [OF this, of nm mtime] that show ?thesis
      by (simp add: buildUstarHeader_body writeChecksum_frame)
  qed
  have "subarray ?h 124 136 = map ((!) ?h) [124..<136]"
    using len by (simp add: subarray_nth)
  also have "\<dots> = map of_nat (take 12 ?F)"
  proof (rule nth_equalityI)
    show "length (map ((!) ?h) [124..<136]) = length (map of_nat (take 12 ?F) :: buffer)"
      using octalField_length [of "real sizeBytes"] by simp
  next
    fix i assume "i < length (map ((!) ?h) [124..<136])"
    then have i: "i < 12" by simp
    then have at: "map ((!) ?h) [124..<136] ! i = ?h ! (124 + i)"
      by (intro nth_map_upt) simp
    have "map of_nat (take 12 ?F) ! i = (of_nat (?F ! i) :: byte)"
      using i octalField_length [of "real sizeBytes"] by simp
    with at nth [OF i] show "map ((!) ?h) [124..<136] ! i = map of_nat (take 12 ?F) ! i"
      by simp
  qed
  finally show ?thesis .
qed

lemma octalValue_take:
  "k \<le> length (toString8 n) \<Longrightarrow>
     octalValue (take k (toString8 n)) = n div 8 ^ (length (toString8 n) - k)"
proof (induction n arbitrary: k rule: toString8.induct)
  case (1 n)
  show ?case
  proof (cases "n < 8")
    case True
    then have t: "toString8 n = [48 + n]" by (subst toString8.simps) simp
    from "1.prems" t have "k = 0 \<or> k = 1" by auto
    with t True show ?thesis by (auto simp: octalValue_def)
  next
    case False
    let ?t = "toString8 (n div 8)"
    from False have t: "toString8 n = ?t @ [48 + n mod 8]" by (subst toString8.simps) simp
    show ?thesis
    proof (cases "k \<le> length ?t")
      case True
      with "1.IH" False have "octalValue (take k ?t) = n div 8 div 8 ^ (length ?t - k)"
        by simp
      also have "\<dots> = n div 8 ^ Suc (length ?t - k)"
        by (simp add: div_mult2_eq)
      finally show ?thesis using True by (simp add: t Suc_diff_le)
    next
      case False
      with "1.prems" t have "k = length (toString8 n)" by simp
      then show ?thesis by (simp add: octalValue_toString8)
    qed
  qed
qed

lemma header_parse_digits:
  assumes "12 \<le> length (toString8 sizeBytes)"
  shows "parseTarHeaderSize (buildUstarHeader nm sizeBytes mtime)
           = Some (sizeBytes div 8 ^ (length (toString8 sizeBytes) - 12))"
proof -
  let ?ds = "take 12 (toString8 sizeBytes)"
  from assms have "take 12 (octalField 12 (real sizeBytes)) = ?ds"
    by (simp add: octalField_def padStart_def)
  with header_size_field [of nm sizeBytes mtime]
  have field: "subarray (buildUstarHeader nm sizeBytes mtime) 124 136 = map of_nat ?ds"
    by simp
  have "list_all octalDigit (toString8 sizeBytes)"
    using toString8_digits [of sizeBytes] by (simp add: list_all_iff octalDigit_def)
  then have digits: "list_all octalDigit ?ds"
    by (auto simp: list_all_iff dest: in_set_takeD)
  have ne: "?ds \<noteq> []" using assms by auto
  from parseOctalText_plain [OF digits ne] field octalValue_take [OF assms]
  show ?thesis by (simp add: parseTarHeaderSize_def)
qed

lemma header_parse_small:
  assumes "sizeBytes < 8 ^ 11"
  shows "subarray (buildUstarHeader nm sizeBytes mtime) 124 136
           = map of_nat (padStart 11 48 (toString8 sizeBytes) @ [0])"
    and "parseTarHeaderSize (buildUstarHeader nm sizeBytes mtime) = Some sizeBytes"
proof -
  let ?ds = "padStart 11 48 (toString8 sizeBytes)"
  from toString8_length_le [OF assms] have l: "length ?ds = 11"
    by (simp add: padStart_length)
  then have F: "take 12 (octalField 12 (real sizeBytes)) = ?ds @ [0]"
    by (simp add: octalField_def)
  with header_size_field [of nm sizeBytes mtime]
  show field: "subarray (buildUstarHeader nm sizeBytes mtime) 124 136 = map of_nat (?ds @ [0])"
    by simp
  have digits: "list_all octalDigit ?ds"
    using padStart_digits [of 11 sizeBytes] by (simp add: list_all_iff octalDigit_def)
  have ne: "?ds \<noteq> []" using l by auto
  from parseOctalText_nul [OF digits ne] field
  show "parseTarHeaderSize (buildUstarHeader nm sizeBytes mtime) = Some sizeBytes"
    by (simp add: parseTarHeaderSize_def octalValue_padStart)
qed

lemma header_parse_below:
  assumes "sizeBytes < 8 ^ 12"
  shows "parseTarHeaderSize (buildUstarHeader nm sizeBytes mtime) = Some sizeBytes"
proof (cases "sizeBytes < 8 ^ 11")
  case True
  then show ?thesis by (rule header_parse_small(2))
next
  case False
  then have "11 < length (toString8 sizeBytes)" by (intro toString8_length_gt) simp
  moreover from toString8_length_le [OF assms] have "length (toString8 sizeBytes) \<le> 12"
    by simp
  ultimately have l: "length (toString8 sizeBytes) = 12" by simp
  then have "12 \<le> length (toString8 sizeBytes)" by simp
  from header_parse_digits [OF this, of nm mtime] l show ?thesis by simp
qed

lemma header_parse_beyond:
  assumes "8 ^ 12 \<le> sizeBytes"
  shows "parseTarHeaderSize (buildUstarHeader nm sizeBytes mtime)
           = Some (sizeBytes div 8 ^ (length (toString8 sizeBytes) - 12))"
    and "sizeBytes div 8 ^ (length (toString8 sizeBytes) - 12) < sizeBytes"
proof -
  from toString8_length_gt [OF assms] have l: "12 < length (toString8 sizeBytes)" .
  then have "12 \<le> length (toString8 sizeBytes)" by simp
  then show "parseTarHeaderSize (buildUstarHeader nm sizeBytes mtime)
           = Some (sizeBytes div 8 ^ (length (toString8 sizeBytes) - 12))"
    by (rule header_parse_digits)
  from l obtain j where j: "length (toString8 sizeBytes) - 12 = Suc j"
    by (cases "length (toString8 sizeBytes) - 12") auto
  have "(1::nat) \<le> 8 ^ j" by simp
  then have "(1::nat) < 8 * 8 ^ j" by linarith
  then have "(1::nat) < 8 ^ Suc j" by simp
  moreover from assms have "0 < sizeBytes"
    by (metis not_gr_zero not_le zero_less_numeral zero_less_power)
  ultimately show "sizeBytes div 8 ^ (length (toString8 sizeBytes) - 12) < sizeBytes"
    unfolding j by (intro div_less_dividend)
qed

text \<open>
  C8.  For a content size below \<open>8 ^ 12\<close> the reader of the test suite gets the size
  back from the size field at offsets 124..135.  Below \<open>8 ^ 11\<close> the field holds the
  eleven octal digits of the size and a NUL byte.  From \<open>8 ^ 11\<close> on the header is still
  built: the field holds the first twelve octal digits of the size and no NUL byte.
  From \<open>8 ^ 12\<close> on digits are lost and the reader gets a smaller number, for the size
  \<open>8 ^ 12\<close> the number \<open>8 ^ 11\<close>.
\<close>

theorem C8_size_field_round_trip:
  "(sizeBytes < 8 ^ 12 \<longrightarrow>
      parseTarHeaderSize (buildUstarHeader nm sizeBytes mtime) = Some sizeBytes)
   \<and> (sizeBytes < 8 ^ 11 \<longrightarrow>
      subarray (buildUstarHeader nm sizeBytes mtime) 124 136
        = map of_nat (padStart 11 48 (toString8 sizeBytes) @ [0]))
   \<and> (8 ^ 11 \<le> sizeBytes \<longrightarrow>
      subarray (buildUstarHeader nm sizeBytes mtime) 124 136
        = map of_nat (take 12 (toString8 sizeBytes))
      \<and> 12 \<le> length (toString8 sizeBytes))
   \<and> (8 ^ 12 \<le> sizeBytes \<longrightarrow>
      parseTarHeaderSize (buildUstarHeader nm sizeBytes mtime)
        = Some (sizeBytes div 8 ^ (length (toString8 sizeBytes) - 12))
      \<and> sizeBytes div 8 ^ (length (toString8 sizeBytes) - 12) < sizeBytes)
   \<and> parseTarHeaderSize (buildUstarHeader nm (8 ^ 12) mtime) = Some (8 ^ 11)"
proof (intro conjI impI)
  assume "sizeBytes < 8 ^ 12"
  then show "parseTarHeaderSize (buildUstarHeader nm sizeBytes mtime) = Some sizeBytes"
    by (rule header_parse_below)
next
  assume "sizeBytes < 8 ^ 11"
  then show "subarray (buildUstarHeader nm sizeBytes mtime) 124 136
        = map of_nat (padStart 11 48 (toString8 sizeBytes) @ [0])"
    by (rule header_parse_small(1))
next
  assume big: "8 ^ 11 \<le> sizeBytes"
  from toString8_length_gt [OF big] show l: "12 \<le> length (toString8 sizeBytes)" by simp
  then have "take 12 (octalField 12 (real sizeBytes)) = take 12 (toString8 sizeBytes)"
    by (simp add: octalField_def padStart_def)
  with header_size_field [of nm sizeBytes mtime]
  show "subarray (buildUstarHeader nm sizeBytes mtime) 124 136
        = map of_nat (take 12 (toString8 sizeBytes))"
    by simp
next
  assume "8 ^ 12 \<le> sizeBytes"
  then show "parseTarHeaderSize (buildUstarHeader nm sizeBytes mtime)
        = Some (sizeBytes div 8 ^ (length (toString8 sizeBytes) - 12))"
    by (rule header_parse_beyond(1))
next
  assume "8 ^ 12 \<le> sizeBytes"
  then show "sizeBytes div 8 ^ (length (toString8 sizeBytes) - 12) < sizeBytes"
    by (rule header_parse_beyond(2))
next
  have l: "length (toString8 (8 ^ 12)) = 13" by (simp only: toString8_power) simp
  then have "12 \<le> length (toString8 (8 ^ 12))" by simp
  from header_parse_digits [OF this, of nm mtime]
  have "parseTarHeaderSize (buildUstarHeader nm (8 ^ 12) mtime)
      = Some (8 ^ 12 div 8 ^ (length (toString8 (8 ^ 12)) - 12))" .
  also have "8 ^ 12 div 8 ^ (length (toString8 (8 ^ 12)) - 12) = (8::nat) ^ 11"
    unfolding l by simp
  finally show "parseTarHeaderSize (buildUstarHeader nm (8 ^ 12) mtime) = Some (8 ^ 11)" .
qed

text \<open>At the size \<open>8 ^ 11\<close>, which is not below \<open>8 ^ 11\<close>, the size is read back.\<close>

theorem C8_round_trip_counterexample:
  "\<not> (8::nat) ^ 11 < 8 ^ 11
   \<and> parseTarHeaderSize (buildUstarHeader [97] (8 ^ 11) 0) = Some (8 ^ 11)"
proof
  show "\<not> (8::nat) ^ 11 < 8 ^ 11" by simp
  have "(8::nat) ^ 11 < 8 ^ 12" by simp
  then show "parseTarHeaderSize (buildUstarHeader [97] (8 ^ 11) 0) = Some (8 ^ 11)"
    by (rule header_parse_below)
qed

theorem C8_size_field_round_trip_witness:
  "(11::nat) < 8 ^ 12 \<and> (11::nat) < 8 ^ 11
   \<and> parseTarHeaderSize (buildUstarHeader [97] 11 0) = Some 11
   \<and> subarray (buildUstarHeader [97] 11 0) 124 136
       = map of_nat (padStart 11 48 (toString8 11) @ [0])
   \<and> (8::nat) ^ 11 \<le> 8 ^ 11
   \<and> subarray (buildUstarHeader [97] (8 ^ 11) 0) 124 136
       = map of_nat (take 12 (toString8 (8 ^ 11)))
   \<and> 12 \<le> length (toString8 (8 ^ 11))
   \<and> (8::nat) ^ 12 \<le> 8 ^ 13
   \<and> parseTarHeaderSize (buildUstarHeader [97] (8 ^ 13) 0)
       = Some (8 ^ 13 div 8 ^ (length (toString8 (8 ^ 13)) - 12))
   \<and> 8 ^ 13 div 8 ^ (length (toString8 (8 ^ 13)) - 12) < (8::nat) ^ 13"
proof -
  have a: "(11::nat) < 8 ^ 12" by simp
  have a': "(11::nat) < 8 ^ 11" by simp
  have b: "(8::nat) ^ 11 \<le> 8 ^ 11" by simp
  have c: "(8::nat) ^ 12 \<le> 8 ^ 13" by simp
  note t = C8_size_field_round_trip [of 11 "[97]" 0]
  note u = C8_size_field_round_trip [of "8 ^ 11" "[97]" 0]
  note v = C8_size_field_round_trip [of "8 ^ 13" "[97]" 0]
  note below = t [THEN conjunct1, THEN mp, OF a]
  note small = t [THEN conjunct2, THEN conjunct1, THEN mp, OF a']
  note big = u [THEN conjunct2, THEN conjunct2, THEN conjunct1, THEN mp, OF b]
  note beyond = v [THEN conjunct2, THEN conjunct2, THEN conjunct2, THEN conjunct1, THEN mp,
      OF c]
  show ?thesis
    by (intro conjI a a' b c below small big [THEN conjunct1] big [THEN conjunct2]
          beyond [THEN conjunct1] beyond [THEN conjunct2])
qed

text \<open>The name invariant in the words of the specification: non-empty, at most 100
  bytes of UTF-8, no path separator, every character in the safe set.\<close>

definition nameInvariant :: "jsstring \<Rightarrow> bool" where
  "nameInvariant nm =
     (nm \<noteq> [] \<and> length (utf8_encode nm) \<le> 100 \<and> 47 \<notin> set nm \<and> 92 \<notin> set nm
      \<and> list_all safe_char nm)"

definition spacedEntries :: "TarEntry list" where
  "spacedEntries =
     [\<lparr> TarEntry.name = [32, 97], source = BufferSource [], mtimeSeconds = 0 \<rparr>]"

text \<open>
  C4.  The constructor validates the trimmed name and lays out the name as given: the
  entry named by a space and the letter \<open>a\<close> is accepted, although a space is outside
  the safe character set, and the header carries the space.
\<close>

theorem C4_untrimmed_name_accepted:
  "isSafeTarName [32, 97] \<and> nameInvariant [32, 97] = False
   \<and> (\<exists>ts. newTarStream spacedEntries = Inr ts
          \<and> length (layout ts) = 1
          \<and> list_all (\<lambda>l. TarLayoutEntry.name l = [32, 97]
                           \<and> take 2 (header l) = [0x20, 0x61]) (layout ts))"
proof -
  have safe: "isSafeTarName [32, 97]"
    by (simp add: isSafeTarName_def trim_def is_js_whitespace_def safe_char_def utf8_unit_def)
  have inv: "nameInvariant [32, 97] = False"
    by (simp add: nameInvariant_def safe_char_def)
  have "validEntries (\<lambda>p. None) spacedEntries"
    using safe by (simp add: validEntries_def spacedEntries_def fileReadable_def)
  from newTarStream_valid [OF this] obtain ts where ts: "newTarStream spacedEntries = Inr ts"
    and l2: "list_all2 layoutOf spacedEntries (layout ts)"
    by blast
  from l2 obtain l where l: "layout ts = [l]" "layoutOf (hd spacedEntries) l"
    by (auto simp: spacedEntries_def list_all2_Cons1)
  let ?h = "buildUstarHeader [32, 97] 0 0"
  have u: "utf8_encode [32, 97] = [0x20, 0x61]" by (simp add: utf8_unit_def)
  have nth: "?h ! i = utf8_encode [32, 97] ! i" if "i < 2" for i
  proof -
    from that have "i < min (length (utf8_encode [32, 97])) 100"
      by (simp add: utf8_unit_def)
    from headerBody_name_field [OF this, of 0 0] that show ?thesis
      by (simp add: buildUstarHeader_body writeChecksum_frame)
  qed
  have "length ?h = 512" by (rule buildUstarHeader_length)
  then have "take 2 ?h = [?h ! 0, ?h ! 1]"
    by (simp add: take_Suc_conv_app_nth numeral_2_eq_2)
  with nth [of 0] nth [of 1] have hdr: "take 2 ?h = [0x20, 0x61]"
    by (simp add: utf8_unit_def)
  from l hdr have one: "length (layout ts) = 1"
    and all: "list_all (\<lambda>l. TarLayoutEntry.name l = [32, 97]
                            \<and> take 2 (header l) = [0x20, 0x61]) (layout ts)"
    by (simp_all add: layoutOf_def spacedEntries_def sourceContentSize_def)
  show ?thesis
    by (intro conjI exI [of _ ts] safe inv ts one all)
qed

text \<open>A name of 101 bytes, the letter \<open>a\<close> and a hundred spaces, is accepted as well.\<close>

lemma long_name_accepted:
  "isSafeTarName (97 # replicate 100 32)
   \<and> length (utf8_encode (97 # replicate 100 32)) = 101"
proof -
  have ws: "is_js_whitespace 32" "\<not> is_js_whitespace 97"
    by (simp_all add: is_js_whitespace_def)
  have "rev (97 # replicate 100 (32::nat)) = replicate 100 32 @ [97]" by simp
  moreover have "dropWhile is_js_whitespace (replicate 100 32 @ [97]) = [97]"
    using ws by (subst dropWhile_append2) simp_all
  ultimately have t: "trim (97 # replicate 100 32) = [97]"
    using ws by (simp add: trim_def)
  have safe: "isSafeTarName (97 # replicate 100 32)"
    by (simp add: isSafeTarName_def t safe_char_def utf8_unit_def)
  have "list_all (\<lambda>c. c < 128) (97 # replicate 100 (32::nat))" by (simp add: list_all_iff)
  from utf8_encode_ascii [OF this] have "length (utf8_encode (97 # replicate 100 32)) = 101"
    by simp
  with safe show ?thesis by simp
qed

section \<open>Claims about the upload loop\<close>

text \<open>A server that answers every append with status 409 and every offset query with
  \<open>k\<close>.  Its state counts the append calls.\<close>

definition conflictClient :: "nat \<Rightarrow> nat EnriProxyClient" where
  "conflictClient k =
     \<lparr> appendUploadChunk = (\<lambda>s offset chunk. (Inl (EnriProxyHttpError 409), s + 1)),
       getUploadOffset = (\<lambda>s. (Inr k, s)) \<rparr>"

lemma notRetried_409: "\<not> notRetried (EnriProxyHttpError 409)"
  by (simp add: notRetried_def)

text \<open>A client with a counter of the append calls beside its state.\<close>

definition countAppends :: "'s EnriProxyClient \<Rightarrow> ('s \<times> nat) EnriProxyClient" where
  "countAppends client =
     \<lparr> appendUploadChunk =
         (\<lambda>(s, n) offset chunk.
            case appendUploadChunk client s offset chunk of (r, s') \<Rightarrow> (r, (s', n + 1))),
       getUploadOffset =
         (\<lambda>(s, n). case getUploadOffset client s of (r, s') \<Rightarrow> (r, (s', n))) \<rparr>"

lemma counted_attempts:
  assumes conflict: "\<And>s off ch. fst (appendUploadChunk client s off ch)
                       = Inl (EnriProxyHttpError 409)"
    and same: "\<And>s. fst (getUploadOffset client s) = Inr offset"
  shows "attempt \<le> maxAttempts \<Longrightarrow>
           \<exists>s'. uploadChunkAttempts (countAppends client) (s, n) offset chunk attempt
                  = (Inl (EnriProxyHttpError 409), (s', n + (maxAttempts + 1 - attempt)))"
proof (induction "maxAttempts - attempt" arbitrary: attempt s n)
  case 0
  then have last: "attempt = maxAttempts" by simp
  obtain s1 where a: "appendUploadChunk client s offset chunk
      = (Inl (EnriProxyHttpError 409), s1)"
    using conflict [of s offset chunk] by (cases "appendUploadChunk client s offset chunk") simp
  obtain s2 where g: "getUploadOffset client s1 = (Inr offset, s2)"
    using same [of s1] by (cases "getUploadOffset client s1") simp
  have "uploadChunkAttempts (countAppends client) (s, n) offset chunk attempt
      = (Inl (EnriProxyHttpError 409), (s2, n + 1))"
    by (subst uploadChunkAttempts.simps)
       (simp add: countAppends_def a g last notRetried_409)
  with last show ?case by simp
next
  case (Suc k)
  then have more: "attempt < maxAttempts" "k = maxAttempts - (attempt + 1)"
    "attempt + 1 \<le> maxAttempts"
    by simp_all
  obtain s1 where a: "appendUploadChunk client s offset chunk
      = (Inl (EnriProxyHttpError 409), s1)"
    using conflict [of s offset chunk] by (cases "appendUploadChunk client s offset chunk") simp
  obtain s2 where g: "getUploadOffset client s1 = (Inr offset, s2)"
    using same [of s1] by (cases "getUploadOffset client s1") simp
  have "uploadChunkAttempts (countAppends client) (s, n) offset chunk attempt
      = uploadChunkAttempts (countAppends client) (s2, n + 1) offset chunk (attempt + 1)"
    using more(1)
    by (subst uploadChunkAttempts.simps) (simp add: countAppends_def a g notRetried_409)
  moreover have "n + 1 + (maxAttempts + 1 - (attempt + 1)) = n + (maxAttempts + 1 - attempt)"
    using more(1) by arith
  ultimately show ?case
    using Suc.hyps(1) [OF more(2) more(3), of s2 "n + 1"] by (simp only:)
qed

lemma counted_sendChunks:
  assumes conflict: "\<And>s off ch. fst (appendUploadChunk client s off ch)
                       = Inl (EnriProxyHttpError 409)"
    and same: "\<And>s. fst (getUploadOffset client s) = Inr offset"
  shows "concat chunks \<noteq> [] \<Longrightarrow>
           \<exists>s'. sendChunks (countAppends client) (s, n) tarSize offset progress chunks
                  = (Inl (EnriProxyHttpError 409), (s', n + maxAttempts))"
proof (induction chunks)
  case Nil
  then show ?case by simp
next
  case (Cons chunk rest)
  show ?case
  proof (cases "length chunk = 0")
    case True
    with Cons show ?thesis by simp
  next
    case False
    from counted_attempts [OF conflict same, of 1 s n chunk]
    obtain s' where "uploadChunkWithRetry (countAppends client) (s, n) offset chunk
        = (Inl (EnriProxyHttpError 409), (s', n + maxAttempts))"
      by (auto simp: uploadChunkWithRetry_def maxAttempts_def)
    with False show ?thesis by simp
  qed
qed

text \<open>The upload of a valid entry list up to its first round of chunks.\<close>

lemma uploadTar_first_round:
  assumes valid: "validEntries fs entries"
    and g: "getUploadOffset client s = (Inr offset, s1)"
    and below: "offset < computeTarSizeBytes entries"
  shows "\<exists>ts. list_all (wfEntry fs) (layout ts)
           \<and> totalSizeBytes ts = length (archiveBytes fs (layout ts))
           \<and> totalSizeBytes ts = computeTarSizeBytes entries
           \<and> uploadTar fs client s entries chunk_size_bytes
               = uploadTarLoop fs ts client s1 (computeTarSizeBytes entries)
                   (mathMax 1 (mathFloor chunk_size_bytes)) offset"
proof -
  from newTarStream_valid [OF valid] obtain ts where ts: "newTarStream entries = Inr ts"
    and wfl: "list_all (wfEntry fs) (layout ts)"
    and sz: "totalSizeBytes ts = sum_list (map entrySize entries) + 1024"
    and tot: "totalSizeBytes ts = length (archiveBytes fs (layout ts))"
    by blast
  have size: "totalSizeBytes ts = computeTarSizeBytes entries"
    by (simp add: sz computeTarSizeBytes_sum)
  have "uploadTar fs client s entries chunk_size_bytes
      = uploadTarLoop fs ts client s1 (computeTarSizeBytes entries)
          (mathMax 1 (mathFloor chunk_size_bytes)) offset"
    using ts size g below by (simp add: uploadTar_def Let_def getSizeBytes_def)
  with wfl tot size show ?thesis by blast
qed

lemma normalizedChunk_not_NaN:
  "chunk_size_bytes \<noteq> NaN \<Longrightarrow> mathMax 1 (mathFloor chunk_size_bytes) \<noteq> NaN"
  by (cases chunk_size_bytes) (simp_all add: normalizedChunk_cases)

text \<open>With a chunk size that is a number the first round holds a chunk that is not
  empty; what the loop over the chunks raises there, the upload raises.\<close>

lemma uploadTar_first_chunk:
  assumes valid: "validEntries fs entries"
    and g: "getUploadOffset client s = (Inr offset, s1)"
    and below: "offset < computeTarSizeBytes entries"
    and num: "chunk_size_bytes \<noteq> NaN"
    and sc: "\<And>chunks. concat chunks \<noteq> [] \<Longrightarrow>
               \<exists>s2. P s2 \<and> sendChunks client s1 (computeTarSizeBytes entries) offset False
                              chunks = (Inl err, s2)"
  shows "\<exists>s2. P s2 \<and> uploadTar fs client s entries chunk_size_bytes = Some (Inl err, s2)"
proof -
  from uploadTar_first_round [OF valid g below, of chunk_size_bytes] obtain ts where
    wfl: "list_all (wfEntry fs) (layout ts)"
    and tot: "totalSizeBytes ts = length (archiveBytes fs (layout ts))"
    and size: "totalSizeBytes ts = computeTarSizeBytes entries"
    and ut: "uploadTar fs client s entries chunk_size_bytes
               = uploadTarLoop fs ts client s1 (computeTarSizeBytes entries)
                   (mathMax 1 (mathFloor chunk_size_bytes)) offset"
    by blast
  have fin: "Finite (real offset) \<noteq> NaN" "Finite (real offset) \<noteq> PosInfinity"
    by simp_all
  from iterateChunks_correct [OF wfl tot fin normalizedChunk_not_NaN [OF num]]
  obtain chunks where ic: "iterateChunks fs ts (Finite (real offset))
        (mathMax 1 (mathFloor chunk_size_bytes)) = (chunks, None)"
    and cc: "concat chunks = drop offset (archiveBytes fs (layout ts))"
    by (auto simp: prod_eq_iff)
  from below size tot have "concat chunks \<noteq> []" by (simp add: cc)
  from sc [OF this] obtain s2 where p: "P s2"
    and s2: "sendChunks client s1 (computeTarSizeBytes entries) offset False chunks
               = (Inl err, s2)"
    by blast
  have "uploadTar fs client s entries chunk_size_bytes = Some (Inl err, s2)"
    unfolding ut using below by (subst uploadTarLoop.simps) (simp add: ic s2)
  with p show ?thesis by blast
qed

text \<open>With the chunk size \<open>NaN\<close> the first round holds no chunk, and the upload ends as
  stalled with the state left by the first offset query.\<close>

lemma uploadTar_NaN_chunk:
  assumes valid: "validEntries fs entries"
    and g: "getUploadOffset client s = (Inr offset, s1)"
    and below: "offset < computeTarSizeBytes entries"
  shows "uploadTar fs client s entries NaN = Some (Inl UploadStalled, s1)"
proof -
  from uploadTar_first_round [OF valid g below, of NaN] obtain ts where
    ut: "uploadTar fs client s entries NaN
           = uploadTarLoop fs ts client s1 (computeTarSizeBytes entries)
               (mathMax 1 (mathFloor NaN)) offset"
    by blast
  have ic: "iterateChunks fs ts (Finite (real offset)) (mathMax 1 (mathFloor NaN))
      = ([], None)"
    by (simp add: normalizedChunk_cases iterateChunks_NaN_chunk)
  show ?thesis
    unfolding ut using below by (subst uploadTarLoop.simps) (simp add: ic)
qed

lemma uploadTar_unchanged_conflict:
  assumes valid: "validEntries fs entries"
    and conflict: "\<And>s off ch. fst (appendUploadChunk client s off ch)
                       = Inl (EnriProxyHttpError 409)"
    and same: "\<And>s. fst (getUploadOffset client s) = Inr offset"
    and below: "offset < computeTarSizeBytes entries"
  shows "chunk_size_bytes \<noteq> NaN \<Longrightarrow>
           \<exists>s'. uploadTar fs (countAppends client) (s, 0) entries chunk_size_bytes
                  = Some (Inl (EnriProxyHttpError 409), (s', 5))"
    and "\<exists>s'. uploadTar fs (countAppends client) (s, 0) entries NaN
                  = Some (Inl UploadStalled, (s', 0))"
proof -
  obtain s1 where "getUploadOffset client s = (Inr offset, s1)"
    using same [of s] by (cases "getUploadOffset client s") simp
  then have g: "getUploadOffset (countAppends client) (s, 0) = (Inr offset, (s1, 0))"
    by (simp add: countAppends_def)
  from uploadTar_NaN_chunk [OF valid g below]
  show "\<exists>s'. uploadTar fs (countAppends client) (s, 0) entries NaN
                  = Some (Inl UploadStalled, (s', 0))"
    by blast
  assume num: "chunk_size_bytes \<noteq> NaN"
  have sc: "\<exists>s2. snd s2 = 5
              \<and> sendChunks (countAppends client) (s1, 0) (computeTarSizeBytes entries)
                  offset False chunks = (Inl (EnriProxyHttpError 409), s2)"
    if "concat chunks \<noteq> []" for chunks
    using counted_sendChunks [OF conflict same that, of s1 0 "computeTarSizeBytes entries"
        False]
    by (auto simp: maxAttempts_def)
  from uploadTar_first_chunk [OF valid g below num, of "\<lambda>s2. snd s2 = 5", OF sc]
  obtain s2 where "snd s2 = 5"
    and "uploadTar fs (countAppends client) (s, 0) entries chunk_size_bytes
           = Some (Inl (EnriProxyHttpError 409), s2)"
    by blast
  then have "uploadTar fs (countAppends client) (s, 0) entries chunk_size_bytes
           = Some (Inl (EnriProxyHttpError 409), (fst s2, 5))"
    by (cases s2) simp
  then show "\<exists>s'. uploadTar fs (countAppends client) (s, 0) entries chunk_size_bytes
                  = Some (Inl (EnriProxyHttpError 409), (s', 5))"
    by blast
qed

text \<open>
  C5.  When every append fails with status 409 and every offset query returns the
  same offset below the archive size, the upload of a valid entry list terminates.
  When the chunk size of the session is a number, it raises the HTTP error with
  status 409 after five append calls, all for the first chunk, and not the error of
  a stalled upload.  When the chunk size is \<open>NaN\<close>, no chunk is produced and it
  raises the error of a stalled upload after no append call.  The second component
  of the state of \<open>countAppends\<close> is the number of append calls made.
\<close>

theorem C5_unchanged_conflict_raises_409:
  assumes "validEntries fs entries"
    and "\<forall>s off ch. fst (appendUploadChunk client s off ch) = Inl (EnriProxyHttpError 409)"
    and "\<forall>s. fst (getUploadOffset client s) = Inr offset"
    and "offset < computeTarSizeBytes entries"
  shows "(chunk_size_bytes \<noteq> NaN \<longrightarrow>
            (\<exists>s'. uploadTar fs (countAppends client) (s, 0) entries chunk_size_bytes
                    = Some (Inl (EnriProxyHttpError 409), (s', 5))))
       \<and> (chunk_size_bytes = NaN \<longrightarrow>
            (\<exists>s'. uploadTar fs (countAppends client) (s, 0) entries chunk_size_bytes
                    = Some (Inl UploadStalled, (s', 0))))"
proof (intro conjI impI)
  assume "chunk_size_bytes \<noteq> NaN"
  with assms show "\<exists>s'. uploadTar fs (countAppends client) (s, 0) entries chunk_size_bytes
                    = Some (Inl (EnriProxyHttpError 409), (s', 5))"
    by (intro uploadTar_unchanged_conflict(1)) simp_all
next
  assume "chunk_size_bytes = NaN"
  with assms show "\<exists>s'. uploadTar fs (countAppends client) (s, 0) entries chunk_size_bytes
                    = Some (Inl UploadStalled, (s', 0))"
    by (simp only:) (intro uploadTar_unchanged_conflict(2), simp_all)
qed

theorem C5_unchanged_conflict_raises_409_witness:
  "validEntries exampleFiles exampleEntries
   \<and> (\<forall>s off ch. fst (appendUploadChunk (conflictClient 10) s off ch)
                    = Inl (EnriProxyHttpError 409))
   \<and> (\<forall>s. fst (getUploadOffset (conflictClient 10) s) = Inr 10)
   \<and> 10 < computeTarSizeBytes exampleEntries
   \<and> Finite 64 \<noteq> NaN
   \<and> (\<exists>s'. uploadTar exampleFiles (countAppends (conflictClient 10)) (0, 0) exampleEntries
              (Finite 64) = Some (Inl (EnriProxyHttpError 409), (s', 5)))
   \<and> (\<exists>s'. uploadTar exampleFiles (countAppends (conflictClient 10)) (0, 0) exampleEntries
              NaN = Some (Inl UploadStalled, (s', 0)))"
proof -
  have v: "validEntries exampleFiles exampleEntries"
    by (rule exampleEntries_valid)
  have c: "\<forall>s off ch. fst (appendUploadChunk (conflictClient 10) s off ch)
                    = Inl (EnriProxyHttpError 409)"
    by (simp add: conflictClient_def)
  have g: "\<forall>s. fst (getUploadOffset (conflictClient 10) s) = Inr 10"
    by (simp add: conflictClient_def)
  have b: "10 < computeTarSizeBytes exampleEntries"
    by (simp add: exampleEntries_size)
  have n: "Finite 64 \<noteq> NaN"
    by simp
  from C5_unchanged_conflict_raises_409 [OF v c g b, of "Finite 64" 0] n
  have one: "\<exists>s'. uploadTar exampleFiles (countAppends (conflictClient 10)) (0, 0)
      exampleEntries (Finite 64) = Some (Inl (EnriProxyHttpError 409), (s', 5))"
    by blast
  from C5_unchanged_conflict_raises_409 [OF v c g b, of NaN 0]
  have two: "\<exists>s'. uploadTar exampleFiles (countAppends (conflictClient 10)) (0, 0)
      exampleEntries NaN = Some (Inl UploadStalled, (s', 0))"
    by blast
  from v c g b n one two show ?thesis by blast
qed

text \<open>
  C6.  When an append fails with status 409 and the offset queried afterwards differs
  from the expected offset, \<open>uploadChunkWithRetry\<close> returns the queried offset at
  every attempt, the last one included.
\<close>

theorem C6_conflict_resync:
  assumes "appendUploadChunk client s offset chunk = (Inl (EnriProxyHttpError 409), s1)"
    and "getUploadOffset client s1 = (Inr actual, s2)"
    and "actual \<noteq> offset"
    and "attempt \<le> maxAttempts"
  shows "uploadChunkAttempts client s offset chunk attempt = (Inr actual, s2)"
  using assms by (subst uploadChunkAttempts.simps) simp

theorem C6_conflict_resync_witness:
  "appendUploadChunk (conflictClient 7) 0 10 [1, 2, 3] = (Inl (EnriProxyHttpError 409), 1)
   \<and> getUploadOffset (conflictClient 7) 1 = (Inr 7, 1)
   \<and> (7::nat) \<noteq> 10 \<and> 5 \<le> maxAttempts
   \<and> uploadChunkAttempts (conflictClient 7) 0 10 [1, 2, 3] 5 = (Inr 7, 1)"
proof -
  have a: "appendUploadChunk (conflictClient 7) 0 10 [1, 2, 3]
      = (Inl (EnriProxyHttpError 409), 1)"
    by (simp add: conflictClient_def)
  have g: "getUploadOffset (conflictClient 7) 1 = (Inr 7, 1)"
    by (simp add: conflictClient_def)
  have n: "(7::nat) \<noteq> 10" by simp
  have m: "5 \<le> maxAttempts" by (simp add: maxAttempts_def)
  from a g n m C6_conflict_resync [OF a g n m] show ?thesis by simp
qed

text \<open>When the queried offset equals the expected offset, the conflict is an attempt
  like any other failure: the next attempt follows, and the fifth raises.\<close>

lemma conflict_same_offset_retries:
  assumes "appendUploadChunk client s offset chunk = (Inl (EnriProxyHttpError 409), s1)"
    and "getUploadOffset client s1 = (Inr offset, s2)"
  shows "attempt < maxAttempts \<Longrightarrow>
           uploadChunkAttempts client s offset chunk attempt
             = uploadChunkAttempts client s2 offset chunk (attempt + 1)"
    and "attempt = maxAttempts \<Longrightarrow>
           uploadChunkAttempts client s offset chunk attempt
             = (Inl (EnriProxyHttpError 409), s2)"
  using assms by (subst uploadChunkAttempts.simps; simp add: notRetried_409)+

lemma conflictClient_attempts:
  "attempt \<le> maxAttempts \<Longrightarrow>
     uploadChunkAttempts (conflictClient k) s k chunk attempt
       = (Inl (EnriProxyHttpError 409), s + (maxAttempts + 1 - attempt))"
proof (induction "maxAttempts - attempt" arbitrary: attempt s)
  case 0
  then have last: "attempt = maxAttempts" by simp
  have a: "appendUploadChunk (conflictClient k) s k chunk
      = (Inl (EnriProxyHttpError 409), s + 1)"
    by (simp add: conflictClient_def)
  have g: "getUploadOffset (conflictClient k) (s + 1) = (Inr k, s + 1)"
    by (simp add: conflictClient_def)
  from conflict_same_offset_retries(2) [OF a g last] last show ?case by simp
next
  case (Suc n)
  then have more: "attempt < maxAttempts" "n = maxAttempts - (attempt + 1)"
    "attempt + 1 \<le> maxAttempts"
    by simp_all
  have a: "appendUploadChunk (conflictClient k) s k chunk
      = (Inl (EnriProxyHttpError 409), s + 1)"
    by (simp add: conflictClient_def)
  have g: "getUploadOffset (conflictClient k) (s + 1) = (Inr k, s + 1)"
    by (simp add: conflictClient_def)
  from conflict_same_offset_retries(1) [OF a g more(1)]
    Suc.hyps(1) [OF more(2) more(3), of "s + 1"] more(1)
  show ?case by simp
qed

theorem C6_conflict_counterexample:
  "uploadChunkWithRetry (conflictClient 10) 0 10 [1, 2, 3]
     = (Inl (EnriProxyHttpError 409), 5)"
  using conflictClient_attempts [of 1 10 0 "[1, 2, 3]"]
  by (simp add: uploadChunkWithRetry_def maxAttempts_def)

text \<open>The loop over the chunks with the server \<open>conflictClient\<close>: the first chunk
  that is not empty takes five appends.\<close>

lemma conflictClient_sendChunks:
  "concat chunks \<noteq> [] \<Longrightarrow>
     sendChunks (conflictClient k) s tarSize k progress chunks
       = (Inl (EnriProxyHttpError 409), s + 5)"
proof (induction chunks)
  case Nil
  then show ?case by simp
next
  case (Cons chunk rest)
  show ?case
  proof (cases "length chunk = 0")
    case True
    with Cons show ?thesis by simp
  next
    case False
    have "uploadChunkWithRetry (conflictClient k) s k chunk
        = (Inl (EnriProxyHttpError 409), s + 5)"
      using conflictClient_attempts [of 1 k s chunk]
      by (simp add: uploadChunkWithRetry_def maxAttempts_def)
    with False show ?thesis by simp
  qed
qed

text \<open>The upload of the example with chunks of 64 bytes, against a server that
  answers every append with status 409 and every offset query with 10: the state,
  which counts the appends, ends at five, and the error is the HTTP error.\<close>

theorem C5_stalled_counterexample:
  "uploadTar exampleFiles (conflictClient 10) 0 exampleEntries (Finite 64)
     = Some (Inl (EnriProxyHttpError 409), 5)"
proof -
  have g: "getUploadOffset (conflictClient 10) 0 = (Inr 10, 0)"
    by (simp add: conflictClient_def)
  have b: "10 < computeTarSizeBytes exampleEntries"
    by (simp add: exampleEntries_size)
  have n: "Finite 64 \<noteq> NaN"
    by simp
  have sc: "\<exists>s2. s2 = 5
              \<and> sendChunks (conflictClient 10) 0 (computeTarSizeBytes exampleEntries) 10
                  False chunks = (Inl (EnriProxyHttpError 409), s2)"
    if "concat chunks \<noteq> []" for chunks
    using conflictClient_sendChunks [OF that, of 10 0] by simp
  from uploadTar_first_chunk [OF exampleEntries_valid g b n, of "\<lambda>s2. s2 = 5", OF sc]
  show ?thesis by blast
qed

end
